theory Spec2Isabelle
  imports Main "HOL-Library.Multiset"
begin

section \<open>Nodes and search state\<close>

text \<open>Python exceptions that the modelled code can raise.\<close>

datatype error = IndexError | ValueError | AttributeError

text \<open>Class \<open>UcsNode\<close>: a pancake stack, the cost from the root and the path from the root.
  Class \<open>AStarNode\<close> extends it with the heuristic cost and the total cost.\<close>

record UcsNode =
  stack :: "int list"
  backwards_cost :: int
  path :: "int list list"

record AStarNode = UcsNode +
  heuristic_cost :: int
  total_cost :: int

text \<open>\<open>AStarNode.__init__\<close>: the total cost is computed from the two arguments.\<close>

definition AStarNode_init :: "int list \<Rightarrow> int \<Rightarrow> int list list \<Rightarrow> int \<Rightarrow> AStarNode" where
  "AStarNode_init stk bc pth heuristic_value =
     \<lparr>stack = stk, backwards_cost = bc, path = pth,
      heuristic_cost = heuristic_value, total_cost = heuristic_value + bc\<rparr>"

text \<open>\<open>UcsNode.__eq__\<close>: two nodes are equal when their stacks are. The operator \<open>in\<close> on a
  list of nodes and \<open>list.remove\<close> both go through it.\<close>

definition node_eq :: "'a UcsNode_scheme \<Rightarrow> 'a UcsNode_scheme \<Rightarrow> bool" where
  "node_eq a b = (stack a = stack b)"

definition node_in :: "'a UcsNode_scheme \<Rightarrow> 'a UcsNode_scheme list \<Rightarrow> bool" where
  "node_in n ns = list_ex (\<lambda>x. node_eq x n) ns"

text \<open>\<open>list.remove(n)\<close> deletes the first element equal to \<open>n\<close> and raises
  \<open>ValueError\<close> when there is none.\<close>

fun list_remove :: "'a UcsNode_scheme \<Rightarrow> 'a UcsNode_scheme list \<Rightarrow> error + 'a UcsNode_scheme list" where
  "list_remove n [] = Inl ValueError"
| "list_remove n (x # xs) =
     (if node_eq x n then Inr xs
      else (case list_remove n xs of Inl e \<Rightarrow> Inl e | Inr ys \<Rightarrow> Inr (x # ys)))"

text \<open>The attributes of a \<open>Ucs\<close> object (and of an \<open>Astar\<close> object, which inherits them).\<close>

record 'n Ucs =
  root :: 'n
  expanded :: "'n list"
  traversed :: "'n list"
  goal_stack :: "int list"
  nodes_expanded :: int

definition Ucs_init :: "int list \<Rightarrow> UcsNode Ucs" where
  "Ucs_init starting_stack =
     \<lparr>root = \<lparr>stack = starting_stack, backwards_cost = 0, path = [starting_stack]\<rparr>,
      expanded = [], traversed = [],
      goal_stack = sort starting_stack,
      nodes_expanded = 1\<rparr>"

section \<open>Operations shared by both searches\<close>

text \<open>Python slices \<open>xs[:n]\<close> and \<open>xs[n:]\<close>; a negative \<open>n\<close> counts from the end.\<close>

definition slice_to :: "'a list \<Rightarrow> int \<Rightarrow> 'a list" where
  "slice_to xs n = (if n < 0 then take (nat (int (length xs) + n)) xs else take (nat n) xs)"

definition slice_from :: "'a list \<Rightarrow> int \<Rightarrow> 'a list" where
  "slice_from xs n = (if n < 0 then drop (nat (int (length xs) + n)) xs else drop (nat n) xs)"

text \<open>\<open>Ucs.flip\<close>: \<open>stack[:n][::-1] + stack[n:]\<close>.\<close>

definition flip :: "'a list \<Rightarrow> int \<Rightarrow> 'a list" where
  "flip stk n = rev (slice_to stk n) @ slice_from stk n"

text \<open>\<open>Ucs.get_node_by_stack\<close>: the first node of \<open>expanded\<close> with the given stack;
  \<open>None\<close> stands for the integer 0 that the method returns when there is none.\<close>

definition get_node_by_stack :: "('a UcsNode_scheme) Ucs \<Rightarrow> int list \<Rightarrow> 'a UcsNode_scheme option" where
  "get_node_by_stack s stk = find (\<lambda>node. stack node = stk) (expanded s)"

section \<open>Uniform cost search\<close>

text \<open>\<open>Ucs.get_lowest_cost_node\<close>: sorts \<open>expanded\<close> in place (Python's sort is stable)
  and returns its first element; \<open>expanded[0]\<close> raises \<open>IndexError\<close> on an empty list.\<close>

definition ucs_get_lowest_cost_node :: "UcsNode Ucs \<Rightarrow> error + (UcsNode \<times> UcsNode Ucs)" where
  "ucs_get_lowest_cost_node s =
     (let s' = s\<lparr>expanded := sort_key backwards_cost (expanded s)\<rparr>
      in case expanded s' of [] \<Rightarrow> Inl IndexError | n # _ \<Rightarrow> Inr (n, s'))"

text \<open>Lines 103 to 109: how a generated node enters the open list.\<close>

definition ucs_merge :: "UcsNode \<Rightarrow> UcsNode Ucs \<Rightarrow> error + UcsNode Ucs" where
  "ucs_merge new_node s =
     (if \<not> node_in new_node (expanded s) \<and> \<not> node_in new_node (traversed s)
      then Inr (s\<lparr>expanded := expanded s @ [new_node]\<rparr>)
      else if node_in new_node (expanded s) then
        (case get_node_by_stack s (stack new_node) of
           None \<Rightarrow> Inl AttributeError
         | Some old_node \<Rightarrow>
             if backwards_cost new_node < backwards_cost old_node then
               (case list_remove old_node (expanded s) of
                  Inl e \<Rightarrow> Inl e
                | Inr ex \<Rightarrow> Inr (s\<lparr>expanded := ex @ [new_node]\<rparr>))
             else Inr s)
      else Inr s)"

text \<open>The body of the \<open>for\<close> loop of \<open>Ucs.start_search\<close> for one value of \<open>i\<close>.\<close>

definition ucs_generate :: "UcsNode \<Rightarrow> int \<Rightarrow> UcsNode Ucs \<Rightarrow> error + UcsNode Ucs" where
  "ucs_generate current_node i s =
     (let s1 = s\<lparr>nodes_expanded := nodes_expanded s + 1\<rparr>;
          stk = flip (stack current_node) i;
          pth = path current_node @ [stk];
          new_node = \<lparr>stack = stk, backwards_cost = backwards_cost current_node + 1, path = pth\<rparr>
      in ucs_merge new_node s1)"

text \<open>The \<open>for\<close> loop over \<open>range(2, len(current_node.stack) + 1)\<close>.\<close>

fun ucs_expand :: "UcsNode \<Rightarrow> int list \<Rightarrow> UcsNode Ucs \<Rightarrow> error + UcsNode Ucs" where
  "ucs_expand current_node [] s = Inr s"
| "ucs_expand current_node (i # is) s =
     (case ucs_generate current_node i s of
        Inl e \<Rightarrow> Inl e
      | Inr s' \<Rightarrow> ucs_expand current_node is s')"

text \<open>The \<open>while True\<close> loop of \<open>Ucs.start_search\<close>. The result is the returned node together
  with the final object state; \<open>None\<close> means that the loop runs forever.\<close>

partial_function (option) ucs_loop :: "UcsNode Ucs \<Rightarrow> (error + UcsNode \<times> UcsNode Ucs) option" where
  "ucs_loop s =
     (case ucs_get_lowest_cost_node s of
        Inl e \<Rightarrow> Some (Inl e)
      | Inr (current_node, s1) \<Rightarrow>
          (case list_remove current_node (expanded s1) of
             Inl e \<Rightarrow> Some (Inl e)
           | Inr ex \<Rightarrow>
               (let s2 = s1\<lparr>expanded := ex, traversed := traversed s1 @ [current_node]\<rparr>
                in if stack current_node = goal_stack s2 then Some (Inr (current_node, s2))
                   else (case ucs_expand current_node [2 .. int (length (stack current_node))] s2 of
                           Inl e \<Rightarrow> Some (Inl e)
                         | Inr s3 \<Rightarrow> ucs_loop s3))))"

declare ucs_loop.simps [code]

definition ucs_start_search :: "UcsNode Ucs \<Rightarrow> (error + UcsNode \<times> UcsNode Ucs) option" where
  "ucs_start_search s = ucs_loop (s\<lparr>expanded := expanded s @ [root s]\<rparr>)"

section \<open>A* search\<close>

text \<open>\<open>Astar.calculate_heuristic_value\<close>: the \<open>while\<close> loop with its counter \<open>i\<close> and the
  running value.\<close>

function heuristic_loop :: "int list \<Rightarrow> nat \<Rightarrow> int \<Rightarrow> int" where
  "heuristic_loop stk i heuristic_value =
     (if int i < int (length stk) - 1 then
        (let current_pancake = stk ! i;
             current_plus_one = current_pancake - 1;
             current_minus_one = current_pancake + 1
         in heuristic_loop stk (i + 1)
              (if stk ! (i + 1) \<noteq> current_minus_one \<and> stk ! (i + 1) \<noteq> current_plus_one
               then heuristic_value + 1 else heuristic_value))
      else heuristic_value)"
  by pat_completeness auto
termination
  by (relation "measure (\<lambda>(stk, i, hv). length stk - i)") auto

declare heuristic_loop.simps [simp del]

definition calculate_heuristic_value :: "int list \<Rightarrow> int" where
  "calculate_heuristic_value stk = heuristic_loop stk 0 0"

text \<open>\<open>Astar.__init__\<close>: the initialisation of \<open>Ucs\<close>, with an \<open>AStarNode\<close> as root.\<close>

definition Astar_init :: "int list \<Rightarrow> AStarNode Ucs" where
  "Astar_init starting_stack =
     \<lparr>root = AStarNode_init starting_stack 0 [starting_stack]
               (calculate_heuristic_value starting_stack),
      expanded = [], traversed = [],
      goal_stack = sort starting_stack,
      nodes_expanded = 1\<rparr>"

definition astar_get_lowest_cost_node :: "AStarNode Ucs \<Rightarrow> error + (AStarNode \<times> AStarNode Ucs)" where
  "astar_get_lowest_cost_node s =
     (let s' = s\<lparr>expanded := sort_key total_cost (expanded s)\<rparr>
      in case expanded s' of [] \<Rightarrow> Inl IndexError | n # _ \<Rightarrow> Inr (n, s'))"

text \<open>Lines 174 to 180: the same merge, comparing total costs.\<close>

definition astar_merge :: "AStarNode \<Rightarrow> AStarNode Ucs \<Rightarrow> error + AStarNode Ucs" where
  "astar_merge new_node s =
     (if \<not> node_in new_node (expanded s) \<and> \<not> node_in new_node (traversed s)
      then Inr (s\<lparr>expanded := expanded s @ [new_node]\<rparr>)
      else if node_in new_node (expanded s) then
        (case get_node_by_stack s (stack new_node) of
           None \<Rightarrow> Inl AttributeError
         | Some old_node \<Rightarrow>
             if total_cost new_node < total_cost old_node then
               (case list_remove old_node (expanded s) of
                  Inl e \<Rightarrow> Inl e
                | Inr ex \<Rightarrow> Inr (s\<lparr>expanded := ex @ [new_node]\<rparr>))
             else Inr s)
      else Inr s)"

definition astar_generate :: "AStarNode \<Rightarrow> int \<Rightarrow> AStarNode Ucs \<Rightarrow> error + AStarNode Ucs" where
  "astar_generate current_node i s =
     (let s1 = s\<lparr>nodes_expanded := nodes_expanded s + 1\<rparr>;
          stk = flip (stack current_node) i;
          pth = path current_node @ [stk];
          heuristic_value = calculate_heuristic_value stk;
          new_node = AStarNode_init stk (backwards_cost current_node + 1) pth heuristic_value
      in astar_merge new_node s1)"

fun astar_expand :: "AStarNode \<Rightarrow> int list \<Rightarrow> AStarNode Ucs \<Rightarrow> error + AStarNode Ucs" where
  "astar_expand current_node [] s = Inr s"
| "astar_expand current_node (i # is) s =
     (case astar_generate current_node i s of
        Inl e \<Rightarrow> Inl e
      | Inr s' \<Rightarrow> astar_expand current_node is s')"

partial_function (option) astar_loop :: "AStarNode Ucs \<Rightarrow> (error + AStarNode \<times> AStarNode Ucs) option" where
  "astar_loop s =
     (case astar_get_lowest_cost_node s of
        Inl e \<Rightarrow> Some (Inl e)
      | Inr (current_node, s1) \<Rightarrow>
          (case list_remove current_node (expanded s1) of
             Inl e \<Rightarrow> Some (Inl e)
           | Inr ex \<Rightarrow>
               (let s2 = s1\<lparr>expanded := ex, traversed := traversed s1 @ [current_node]\<rparr>
                in if stack current_node = goal_stack s2 then Some (Inr (current_node, s2))
                   else (case astar_expand current_node [2 .. int (length (stack current_node))] s2 of
                           Inl e \<Rightarrow> Some (Inl e)
                         | Inr s3 \<Rightarrow> astar_loop s3))))"

declare astar_loop.simps [code]

definition astar_start_search :: "AStarNode Ucs \<Rightarrow> (error + AStarNode \<times> AStarNode Ucs) option" where
  "astar_start_search s =
     (let s0 = s\<lparr>root := (root s)\<lparr>heuristic_cost := calculate_heuristic_value (stack (root s))\<rparr>\<rparr>
      in astar_loop (s0\<lparr>expanded := expanded s0 @ [root s0]\<rparr>))"

section \<open>Input validation\<close>

text \<open>\<open>FlippingSort.is_stack_valid\<close>, without its printing.\<close>

definition is_stack_valid :: "int list \<Rightarrow> bool" where
  "is_stack_valid starting_stack =
     (if length starting_stack \<noteq> card (set starting_stack) then False
      else list_all (\<lambda>i. i \<in> set starting_stack) [1 .. int (length starting_stack)])"

section \<open>Paths of flips\<close>

text \<open>One edge of the search graph: \<open>b\<close> is \<open>a\<close> with its first \<open>i\<close> pancakes flipped, for some
  \<open>i\<close> of \<open>range(2, N + 1)\<close>.\<close>

definition flip_step :: "nat \<Rightarrow> int list \<Rightarrow> int list \<Rightarrow> bool" where
  "flip_step N a b = list_ex (\<lambda>i. b = flip a i) [2 .. int N]"

text \<open>A non-empty list of stacks that starts with \<open>P\<close> and moves by one flip at a time.\<close>

definition flip_path :: "int list \<Rightarrow> int list list \<Rightarrow> bool" where
  "flip_path P ps = (ps \<noteq> [] \<and> hd ps = P \<and> successively (flip_step (length P)) ps)"

text \<open>The number of adjacent pairs of a stack that are not consecutive integers.\<close>

fun gaps :: "int list \<Rightarrow> int" where
  "gaps (x # y # zs) = (if y \<noteq> x + 1 \<and> y \<noteq> x - 1 then 1 else 0) + gaps (y # zs)"
| "gaps _ = 0"

section \<open>The two searches as instances of one best-first search\<close>

text \<open>The two searches differ in the key that orders the open list and in the node they
  build for a generated stack. The definitions of this section abstract from both; they are
  used to state the invariants of the loops once.\<close>

definition gen_pick :: "('n \<Rightarrow> int) \<Rightarrow> 'n Ucs \<Rightarrow> error + ('n \<times> 'n Ucs)" where
  "gen_pick key s =
     (let s' = s\<lparr>expanded := sort_key key (expanded s)\<rparr>
      in case expanded s' of [] \<Rightarrow> Inl IndexError | n # _ \<Rightarrow> Inr (n, s'))"

definition gen_extract ::
  "('a UcsNode_scheme \<Rightarrow> int) \<Rightarrow> 'a UcsNode_scheme Ucs
     \<Rightarrow> error + ('a UcsNode_scheme \<times> 'a UcsNode_scheme Ucs)" where
  "gen_extract key s =
     (case gen_pick key s of
        Inl e \<Rightarrow> Inl e
      | Inr (current_node, s1) \<Rightarrow>
          (case list_remove current_node (expanded s1) of
             Inl e \<Rightarrow> Inl e
           | Inr ex \<Rightarrow>
               Inr (current_node, s1\<lparr>expanded := ex, traversed := traversed s1 @ [current_node]\<rparr>)))"

definition gen_merge ::
  "('a UcsNode_scheme \<Rightarrow> int) \<Rightarrow> 'a UcsNode_scheme \<Rightarrow> 'a UcsNode_scheme Ucs
     \<Rightarrow> error + 'a UcsNode_scheme Ucs" where
  "gen_merge key new_node s =
     (if \<not> node_in new_node (expanded s) \<and> \<not> node_in new_node (traversed s)
      then Inr (s\<lparr>expanded := expanded s @ [new_node]\<rparr>)
      else if node_in new_node (expanded s) then
        (case get_node_by_stack s (stack new_node) of
           None \<Rightarrow> Inl AttributeError
         | Some old_node \<Rightarrow>
             if key new_node < key old_node then
               (case list_remove old_node (expanded s) of
                  Inl e \<Rightarrow> Inl e
                | Inr ex \<Rightarrow> Inr (s\<lparr>expanded := ex @ [new_node]\<rparr>))
             else Inr s)
      else Inr s)"

definition gen_generate ::
  "('a UcsNode_scheme \<Rightarrow> int list \<Rightarrow> 'a UcsNode_scheme) \<Rightarrow> ('a UcsNode_scheme \<Rightarrow> int)
     \<Rightarrow> 'a UcsNode_scheme \<Rightarrow> int \<Rightarrow> 'a UcsNode_scheme Ucs \<Rightarrow> error + 'a UcsNode_scheme Ucs" where
  "gen_generate mk key current_node i s =
     gen_merge key (mk current_node (flip (stack current_node) i))
       (s\<lparr>nodes_expanded := nodes_expanded s + 1\<rparr>)"

fun gen_expand ::
  "('a UcsNode_scheme \<Rightarrow> int list \<Rightarrow> 'a UcsNode_scheme) \<Rightarrow> ('a UcsNode_scheme \<Rightarrow> int)
     \<Rightarrow> 'a UcsNode_scheme \<Rightarrow> int list \<Rightarrow> 'a UcsNode_scheme Ucs \<Rightarrow> error + 'a UcsNode_scheme Ucs" where
  "gen_expand mk key current_node [] s = Inr s"
| "gen_expand mk key current_node (i # is) s =
     (case gen_generate mk key current_node i s of
        Inl e \<Rightarrow> Inl e
      | Inr s' \<Rightarrow> gen_expand mk key current_node is s')"

text \<open>The nodes that the two searches build from the current node and a flipped stack.\<close>

definition ucs_mk :: "UcsNode \<Rightarrow> int list \<Rightarrow> UcsNode" where
  "ucs_mk current_node stk =
     \<lparr>stack = stk, backwards_cost = backwards_cost current_node + 1,
      path = path current_node @ [stk]\<rparr>"

definition astar_mk :: "AStarNode \<Rightarrow> int list \<Rightarrow> AStarNode" where
  "astar_mk current_node stk =
     AStarNode_init stk (backwards_cost current_node + 1) (path current_node @ [stk])
       (calculate_heuristic_value stk)"

text \<open>What the proofs need of a key, a heuristic and a node builder.\<close>

definition mk_ok ::
  "('a UcsNode_scheme \<Rightarrow> int list \<Rightarrow> 'a UcsNode_scheme) \<Rightarrow> ('a UcsNode_scheme \<Rightarrow> int)
     \<Rightarrow> (int list \<Rightarrow> int) \<Rightarrow> bool" where
  "mk_ok mk key h =
     (\<forall>c stk. stack (mk c stk) = stk \<and> backwards_cost (mk c stk) = backwards_cost c + 1
        \<and> path (mk c stk) = path c @ [stk] \<and> key (mk c stk) = backwards_cost c + 1 + h stk)"

definition consistent :: "(int list \<Rightarrow> int) \<Rightarrow> bool" where
  "consistent h = (\<forall>stk i. h stk \<le> 1 + h (flip stk i))"

text \<open>A node is good when its path is a path of flips from the start to its stack, its cost
  is the number of flips of that path, and its key is cost plus heuristic.\<close>

definition good_node ::
  "('a UcsNode_scheme \<Rightarrow> int) \<Rightarrow> (int list \<Rightarrow> int) \<Rightarrow> int list \<Rightarrow> 'a UcsNode_scheme \<Rightarrow> bool" where
  "good_node key h P n =
     (flip_path P (path n) \<and> last (path n) = stack n
      \<and> int (length (path n)) = backwards_cost n + 1
      \<and> key n = backwards_cost n + h (stack n))"

text \<open>The invariant of the search. While the successors of the node with stack \<open>c\<close> are being
  generated, \<open>pending\<close> holds the flips that are still to come.\<close>

definition search_inv ::
  "('a UcsNode_scheme \<Rightarrow> int) \<Rightarrow> (int list \<Rightarrow> int) \<Rightarrow> int list \<Rightarrow> int list \<Rightarrow> int list
     \<Rightarrow> 'a UcsNode_scheme Ucs \<Rightarrow> bool" where
  "search_inv key h P c pending s =
     (goal_stack s = sort P
      \<and> (\<forall>n \<in> set (expanded s @ traversed s). good_node key h P n)
      \<and> distinct (map stack (expanded s @ traversed s))
      \<and> (\<exists>m \<in> set (expanded s @ traversed s). stack m = P \<and> backwards_cost m \<le> 0)
      \<and> (\<forall>t \<in> set (traversed s). \<forall>i. 2 \<le> i \<and> i \<le> int (length P) \<longrightarrow>
            (stack t = c \<and> i \<in> set pending)
            \<or> (\<exists>m \<in> set (expanded s @ traversed s).
                  stack m = flip (stack t) i \<and> backwards_cost m \<le> backwards_cost t + 1))
      \<and> (\<forall>t \<in> set (traversed s). \<forall>ps. flip_path P ps \<and> last ps = stack t
            \<longrightarrow> backwards_cost t \<le> int (length ps) - 1)
      \<and> (\<forall>t \<in> set (traversed s). stack t \<noteq> sort P))"

section \<open>Runs of the searches, step by step\<close>

text \<open>The points of a run at which the lists are observed: at the head of the \<open>while\<close> loop,
  inside the \<open>for\<close> loop (with the current node and the flips that are still to come), and at
  the \<open>return\<close>.\<close>

datatype 'n config = Head "'n Ucs" | Expanding 'n "int list" "'n Ucs" | Returned 'n "'n Ucs"

fun config_state :: "'n config \<Rightarrow> 'n Ucs" where
  "config_state (Head s) = s"
| "config_state (Expanding cur pending s) = s"
| "config_state (Returned n s) = s"

text \<open>The configurations that a run passes through. The parameters are the method that picks
  the lowest cost node, the body of the \<open>for\<close> loop and the state in which the \<open>while\<close> loop
  is entered; the steps are those of \<open>start_search\<close>.\<close>

inductive run ::
  "('a UcsNode_scheme Ucs \<Rightarrow> error + ('a UcsNode_scheme \<times> 'a UcsNode_scheme Ucs))
   \<Rightarrow> ('a UcsNode_scheme \<Rightarrow> int \<Rightarrow> 'a UcsNode_scheme Ucs \<Rightarrow> error + 'a UcsNode_scheme Ucs)
   \<Rightarrow> 'a UcsNode_scheme Ucs \<Rightarrow> 'a UcsNode_scheme config \<Rightarrow> bool"
  for pick gen s0 where
  start: "run pick gen s0 (Head s0)"
| select:
    "run pick gen s0 (Head s) \<Longrightarrow> pick s = Inr (cur, s1)
     \<Longrightarrow> list_remove cur (expanded s1) = Inr ex
     \<Longrightarrow> stack cur \<noteq> goal_stack s1
     \<Longrightarrow> run pick gen s0
           (Expanding cur [2 .. int (length (stack cur))]
              (s1\<lparr>expanded := ex, traversed := traversed s1 @ [cur]\<rparr>))"
| finish:
    "run pick gen s0 (Head s) \<Longrightarrow> pick s = Inr (cur, s1)
     \<Longrightarrow> list_remove cur (expanded s1) = Inr ex
     \<Longrightarrow> stack cur = goal_stack s1
     \<Longrightarrow> run pick gen s0 (Returned cur (s1\<lparr>expanded := ex, traversed := traversed s1 @ [cur]\<rparr>))"
| generate:
    "run pick gen s0 (Expanding cur (i # is) s) \<Longrightarrow> gen cur i s = Inr s'
     \<Longrightarrow> run pick gen s0 (Expanding cur is s')"
| continue:
    "run pick gen s0 (Expanding cur [] s) \<Longrightarrow> run pick gen s0 (Head s)"

definition ucs_run :: "int list \<Rightarrow> UcsNode config \<Rightarrow> bool" where
  "ucs_run P =
     run ucs_get_lowest_cost_node ucs_generate
       ((Ucs_init P)\<lparr>expanded := expanded (Ucs_init P) @ [root (Ucs_init P)]\<rparr>)"

definition astar_run :: "int list \<Rightarrow> AStarNode config \<Rightarrow> bool" where
  "astar_run P =
     run astar_get_lowest_cost_node astar_generate
       (let s0 = (Astar_init P)\<lparr>root := (root (Astar_init P))
                   \<lparr>heuristic_cost := calculate_heuristic_value (stack (root (Astar_init P)))\<rparr>\<rparr>
        in s0\<lparr>expanded := expanded s0 @ [root s0]\<rparr>)"

text \<open>What holds at each point of a run.\<close>

fun run_inv ::
  "('a UcsNode_scheme \<Rightarrow> int) \<Rightarrow> (int list \<Rightarrow> int) \<Rightarrow> int list \<Rightarrow> 'a UcsNode_scheme config \<Rightarrow> bool" where
  "run_inv key h P (Head s) = search_inv key h P [] [] s"
| "run_inv key h P (Expanding cur pending s) =
     (search_inv key h P (stack cur) pending s \<and> cur \<in> set (traversed s)
      \<and> list_all (\<lambda>i. 2 \<le> i \<and> i \<le> int (length P)) pending)"
| "run_inv key h P (Returned n s) =
     (distinct (map stack (expanded s @ traversed s))
      \<and> list_all (good_node key h P) (traversed s))"

section \<open>The heuristic as a count of index positions\<close>

text \<open>The number of indices \<open>i\<close> below \<open>m\<close> at which the neighbours \<open>s[i]\<close> and \<open>s[i+1]\<close> do not
  differ by exactly one. The specification counts the indices of the half-open interval
  from 0 to \<open>N - 2\<close>, that is \<open>m = N - 2\<close>.\<close>

definition gap_count_upto :: "nat \<Rightarrow> int list \<Rightarrow> int" where
  "gap_count_upto m s = int (length (filter (\<lambda>i. \<bar>s ! i - s ! (i + 1)\<bar> \<noteq> 1) [0 ..< m]))"

section \<open>Basic facts about flips\<close>

lemma slice_to_from: "slice_to xs n @ slice_from xs n = xs"
  by (simp add: slice_to_def slice_from_def)

lemma mset_flip: "mset (flip stk n) = mset stk"
proof -
  have "mset (flip stk n) = mset (slice_to stk n @ slice_from stk n)"
    by (simp add: flip_def)
  then show ?thesis by (simp only: slice_to_from)
qed

lemma length_flip: "length (flip stk n) = length stk"
  using mset_flip [of stk n] by (metis size_mset)

lemma flip_prefix: "0 \<le> n \<Longrightarrow> flip stk n = rev (take (nat n) stk) @ drop (nat n) stk"
  by (simp add: flip_def slice_to_def slice_from_def)

section \<open>Evaluation on small inputs\<close>

lemmas ucs_defs = ucs_start_search_def Ucs_init_def ucs_get_lowest_cost_node_def ucs_generate_def
  ucs_merge_def node_in_def node_eq_def get_node_by_stack_def flip_def slice_to_def slice_from_def
  Let_def

lemmas astar_defs = astar_start_search_def Astar_init_def astar_get_lowest_cost_node_def
  astar_generate_def astar_merge_def node_in_def node_eq_def get_node_by_stack_def flip_def
  slice_to_def slice_from_def Let_def AStarNode_init_def calculate_heuristic_value_def

lemma ucs_singleton:
  "ucs_start_search (Ucs_init [1]) =
     Some (Inr (\<lparr>stack = [1], backwards_cost = 0, path = [[1]]\<rparr>,
       \<lparr>root = \<lparr>stack = [1], backwards_cost = 0, path = [[1]]\<rparr>, expanded = [],
        traversed = [\<lparr>stack = [1], backwards_cost = 0, path = [[1]]\<rparr>],
        goal_stack = [1], nodes_expanded = 1\<rparr>))"
  apply (simp add: ucs_defs)
  apply (subst ucs_loop.simps)
  apply (simp add: ucs_defs)
  done

lemma astar_singleton:
  "\<exists>n s. astar_start_search (Astar_init [1]) = Some (Inr (n, s))
     \<and> backwards_cost n = 0 \<and> path n = [[1]] \<and> nodes_expanded s = 1"
  apply (simp add: astar_defs)
  apply (subst astar_loop.simps)
  apply (simp add: astar_defs)
  done

lemma ucs_two:
  "\<exists>n s. ucs_start_search (Ucs_init [2, 1]) = Some (Inr (n, s)) \<and> backwards_cost n = 1"
  apply (simp add: ucs_defs)
  apply (subst ucs_loop.simps)
  apply (simp add: ucs_defs upto_rec1)
  apply (subst ucs_loop.simps)
  apply (simp add: ucs_defs)
  done

lemma astar_two:
  "\<exists>n s. astar_start_search (Astar_init [2, 1]) = Some (Inr (n, s)) \<and> backwards_cost n = 1"
  apply (simp add: astar_defs)
  apply (subst astar_loop.simps)
  apply (simp add: astar_defs upto_rec1)
  apply (subst astar_loop.simps)
  apply (simp add: astar_defs)
  done

section \<open>The heuristic\<close>

lemma heuristic_loop_count:
  "heuristic_loop s i hv =
     hv + int (length (filter (\<lambda>j. \<bar>s ! j - s ! (j + 1)\<bar> \<noteq> 1) [i ..< length s - 1]))"
proof (induction s i hv rule: heuristic_loop.induct)
  case (1 stk i hv)
  show ?case
  proof (cases "int i < int (length stk) - 1")
    case True
    then have lt: "i < length stk - 1" by simp
    have split: "[i ..< length stk - 1] = i # [i + 1 ..< length stk - 1]"
      using lt by (simp add: upt_conv_Cons)
    have cond: "(stk ! (i + 1) \<noteq> stk ! i + 1 \<and> stk ! (i + 1) \<noteq> stk ! i - 1)
        = (\<bar>stk ! i - stk ! (i + 1)\<bar> \<noteq> 1)"
      by linarith
    show ?thesis
      apply (subst heuristic_loop.simps)
      apply (simp only: True if_True Let_def)
      apply (subst "1.IH" [OF True refl refl refl])
      apply (simp only: cond split)
      apply simp
      done
  next
    case False
    then have "[i ..< length stk - 1] = []" by simp
    with False show ?thesis
      by (subst heuristic_loop.simps) simp
  qed
qed

section \<open>Lists of nodes\<close>

lemma node_in_iff: "node_in n ns \<longleftrightarrow> stack n \<in> stack ` set ns"
proof
  assume "node_in n ns"
  then obtain x where "x \<in> set ns" "stack x = stack n"
    by (auto simp: node_in_def node_eq_def list_ex_iff)
  then show "stack n \<in> stack ` set ns" by (metis imageI)
next
  assume "stack n \<in> stack ` set ns"
  then obtain x where "x \<in> set ns" "stack x = stack n" by (metis imageE)
  then show "node_in n ns"
    by (auto simp: node_in_def node_eq_def list_ex_iff)
qed

lemma list_remove_hd: "list_remove n (n # xs) = Inr xs"
  by (simp add: node_eq_def)

lemma list_remove_split:
  "stack n \<in> stack ` set xs \<Longrightarrow>
     \<exists>a x b. xs = a @ x # b \<and> stack x = stack n \<and> stack n \<notin> stack ` set a
       \<and> list_remove n xs = Inr (a @ b)"
proof (induction xs)
  case Nil
  then show ?case by simp
next
  case (Cons y ys)
  show ?case
  proof (cases "stack y = stack n")
    case True
    then have "y # ys = [] @ y # ys \<and> stack y = stack n \<and> stack n \<notin> stack ` set []
       \<and> list_remove n (y # ys) = Inr ([] @ ys)"
      by (simp add: node_eq_def)
    then show ?thesis by blast
  next
    case False
    with Cons.prems have "stack n \<in> stack ` set ys" by auto
    from Cons.IH [OF this] obtain a x b where
      ab: "ys = a @ x # b" "stack x = stack n" "stack n \<notin> stack ` set a"
        "list_remove n ys = Inr (a @ b)"
      by blast
    have "y # ys = (y # a) @ x # b \<and> stack x = stack n \<and> stack n \<notin> stack ` set (y # a)
       \<and> list_remove n (y # ys) = Inr ((y # a) @ b)"
      using ab False by (auto simp: node_eq_def)
    then show ?thesis by blast
  qed
qed

lemma find_stack:
  "stk \<in> stack ` set xs \<Longrightarrow>
     \<exists>old. find (\<lambda>node. stack node = stk) xs = Some old \<and> old \<in> set xs \<and> stack old = stk"
  by (induction xs) auto

lemma distinct_stack_eq:
  "distinct (map stack xs) \<Longrightarrow> x \<in> set xs \<Longrightarrow> y \<in> set xs \<Longrightarrow> stack x = stack y \<Longrightarrow> x = y"
  by (meson distinct_map inj_onD)

lemma sort_key_hd:
  assumes "sort_key key xs = n # rest"
  shows "mset xs = add_mset n (mset rest)" and "\<forall>m \<in> set xs. key n \<le> key m"
proof -
  have m: "mset (sort_key key xs) = mset xs" by simp
  with assms show "mset xs = add_mset n (mset rest)" by simp
  have "sorted (map key (sort_key key xs))" by (rule sorted_sort_key)
  with assms have "\<forall>m \<in> set rest. key n \<le> key m" by simp
  moreover have "set xs = insert n (set rest)"
    using m assms by (metis list.simps(15) set_mset_mset)
  ultimately show "\<forall>m \<in> set xs. key n \<le> key m" by simp
qed

lemma sort_key_nonempty: "xs \<noteq> [] \<Longrightarrow> \<exists>n rest. sort_key key xs = n # rest"
  by (metis length_0_conv length_sort list.exhaust)

section \<open>Paths\<close>

lemma flip_step_iff: "flip_step N a b \<longleftrightarrow> (\<exists>i. 2 \<le> i \<and> i \<le> int N \<and> b = flip a i)"
  by (auto simp: flip_step_def list_ex_iff)

lemma flip_path_single: "flip_path P [P]"
  by (simp add: flip_path_def)

lemma flip_path_snoc:
  "flip_path P ps \<Longrightarrow> flip_step (length P) (last ps) x \<Longrightarrow> flip_path P (ps @ [x])"
  by (auto simp: flip_path_def successively_append_iff)

lemma flip_path_snocD:
  "flip_path P (ps @ [x]) \<Longrightarrow> ps \<noteq> [] \<Longrightarrow> flip_path P ps \<and> flip_step (length P) (last ps) x"
  by (auto simp: flip_path_def successively_append_iff)

lemma flip_path_singleD: "flip_path P [x] \<Longrightarrow> x = P"
  by (simp add: flip_path_def)

lemma flip_path_mset: "flip_path P ps \<Longrightarrow> mset (last ps) = mset P"
proof (induction ps rule: rev_induct)
  case Nil
  then show ?case by (simp add: flip_path_def)
next
  case (snoc x xs)
  show ?case
  proof (cases "xs = []")
    case True
    with snoc.prems show ?thesis by (simp add: flip_path_def)
  next
    case False
    from flip_path_snocD [OF snoc.prems False] snoc.IH
    have "mset (last xs) = mset P" "flip_step (length P) (last xs) x" by auto
    then show ?thesis by (auto simp: flip_step_iff mset_flip)
  qed
qed

lemma search_inv_counter [simp]:
  "search_inv key h P c pending (s\<lparr>nodes_expanded := k\<rparr>) = search_inv key h P c pending s"
  by (simp add: search_inv_def)

text \<open>One generated successor: what the new open list has to satisfy.\<close>

lemma search_inv_step:
  assumes inv: "search_inv key h P c (i # is) s"
    and cur: "cur \<in> set (traversed s)" "stack cur = c"
    and tr: "traversed s' = traversed s" "goal_stack s' = goal_stack s"
    and dom: "\<forall>m \<in> set (expanded s @ traversed s).
        \<exists>m' \<in> set (expanded s' @ traversed s). stack m' = stack m \<and> backwards_cost m' \<le> backwards_cost m"
    and new: "\<exists>m' \<in> set (expanded s' @ traversed s).
        stack m' = flip c i \<and> backwards_cost m' \<le> backwards_cost cur + 1"
    and good: "\<forall>n \<in> set (expanded s'). good_node key h P n"
    and dist: "distinct (map stack (expanded s' @ traversed s))"
  shows "search_inv key h P c is s'"
proof -
  have g0: "goal_stack s = sort P"
    and g1: "\<forall>n \<in> set (expanded s @ traversed s). good_node key h P n"
    and g2: "distinct (map stack (expanded s @ traversed s))"
    and g3: "\<exists>m \<in> set (expanded s @ traversed s). stack m = P \<and> backwards_cost m \<le> 0"
    and g4: "\<forall>t \<in> set (traversed s). \<forall>j. 2 \<le> j \<and> j \<le> int (length P) \<longrightarrow>
            (stack t = c \<and> j \<in> set (i # is))
            \<or> (\<exists>m \<in> set (expanded s @ traversed s).
                  stack m = flip (stack t) j \<and> backwards_cost m \<le> backwards_cost t + 1)"
    and g5: "\<forall>t \<in> set (traversed s). \<forall>ps. flip_path P ps \<and> last ps = stack t
            \<longrightarrow> backwards_cost t \<le> int (length ps) - 1"
    and g6: "\<forall>t \<in> set (traversed s). stack t \<noteq> sort P"
    using inv unfolding search_inv_def by blast+
  have c1: "\<forall>n \<in> set (expanded s' @ traversed s'). good_node key h P n"
    using good g1 tr by auto
  have c3: "\<exists>m \<in> set (expanded s' @ traversed s'). stack m = P \<and> backwards_cost m \<le> 0"
  proof -
    from g3 obtain m where m: "m \<in> set (expanded s @ traversed s)" "stack m = P" "backwards_cost m \<le> 0"
      by blast
    from dom m(1) obtain m' where "m' \<in> set (expanded s' @ traversed s)" "stack m' = stack m"
      "backwards_cost m' \<le> backwards_cost m" by blast
    with m tr show ?thesis by (metis order_trans)
  qed
  have c4: "\<forall>t \<in> set (traversed s'). \<forall>j. 2 \<le> j \<and> j \<le> int (length P) \<longrightarrow>
            (stack t = c \<and> j \<in> set is)
            \<or> (\<exists>m \<in> set (expanded s' @ traversed s').
                  stack m = flip (stack t) j \<and> backwards_cost m \<le> backwards_cost t + 1)"
  proof (intro ballI allI impI)
    fix t j assume t: "t \<in> set (traversed s')" and j: "2 \<le> j \<and> j \<le> int (length P)"
    from t tr have t': "t \<in> set (traversed s)" by simp
    from g4 t' j have "(stack t = c \<and> j \<in> set (i # is))
            \<or> (\<exists>m \<in> set (expanded s @ traversed s).
                  stack m = flip (stack t) j \<and> backwards_cost m \<le> backwards_cost t + 1)"
      by blast
    then consider (a) "stack t = c" "j = i" | (b) "stack t = c" "j \<in> set is"
      | (w) m where "m \<in> set (expanded s @ traversed s)" "stack m = flip (stack t) j"
          "backwards_cost m \<le> backwards_cost t + 1"
      by auto
    then show "(stack t = c \<and> j \<in> set is)
            \<or> (\<exists>m \<in> set (expanded s' @ traversed s').
                  stack m = flip (stack t) j \<and> backwards_cost m \<le> backwards_cost t + 1)"
    proof cases
      case a
      have "distinct (map stack (traversed s))" using g2 by simp
      from distinct_stack_eq [OF this t' cur(1)] a cur have "t = cur" by simp
      with new a tr show ?thesis by auto
    next
      case b
      then show ?thesis by simp
    next
      case w
      from dom w(1) obtain m' where "m' \<in> set (expanded s' @ traversed s)" "stack m' = stack m"
        "backwards_cost m' \<le> backwards_cost m" by blast
      with w tr have "m' \<in> set (expanded s' @ traversed s') \<and> stack m' = flip (stack t) j
         \<and> backwards_cost m' \<le> backwards_cost t + 1"
        by auto
      then show ?thesis by blast
    qed
  qed
  show ?thesis
    unfolding search_inv_def
    using g0 c1 dist c3 c4 g5 g6 tr by simp
qed

lemma good_node_mk:
  assumes ok: "mk_ok mk key h" and cur: "good_node key h P cur"
    and i: "2 \<le> i" "i \<le> int (length P)"
  shows "good_node key h P (mk cur (flip (stack cur) i))"
proof -
  let ?n = "mk cur (flip (stack cur) i)"
  from ok have n: "stack ?n = flip (stack cur) i" "backwards_cost ?n = backwards_cost cur + 1"
    "path ?n = path cur @ [flip (stack cur) i]"
    "key ?n = backwards_cost cur + 1 + h (flip (stack cur) i)"
    unfolding mk_ok_def by blast+
  from cur have c: "flip_path P (path cur)" "last (path cur) = stack cur"
    "int (length (path cur)) = backwards_cost cur + 1"
    unfolding good_node_def by blast+
  have "flip_step (length P) (last (path cur)) (flip (stack cur) i)"
    using i c(2) by (auto simp: flip_step_iff)
  from flip_path_snoc [OF c(1) this] have "flip_path P (path ?n)" by (simp add: n)
  then show ?thesis
    unfolding good_node_def using n c by simp
qed

lemma gen_merge_inv:
  assumes inv: "search_inv key h P c (i # is) s"
    and cur: "cur \<in> set (traversed s)" "stack cur = c"
    and goodn: "good_node key h P new"
    and st: "stack new = flip c i"
    and cost: "backwards_cost new = backwards_cost cur + 1"
  shows "\<exists>s'. gen_merge key new s = Inr s' \<and> search_inv key h P c is s'
           \<and> traversed s' = traversed s \<and> nodes_expanded s' = nodes_expanded s"
proof -
  have g1: "\<forall>n \<in> set (expanded s @ traversed s). good_node key h P n"
    and g2: "distinct (map stack (expanded s @ traversed s))"
    and g5: "\<forall>t \<in> set (traversed s). \<forall>ps. flip_path P ps \<and> last ps = stack t
            \<longrightarrow> backwards_cost t \<le> int (length ps) - 1"
    using inv unfolding search_inv_def by blast+
  have step: "search_inv key h P c is s'"
    if "traversed s' = traversed s" "goal_stack s' = goal_stack s"
      "\<forall>m \<in> set (expanded s @ traversed s).
        \<exists>m' \<in> set (expanded s' @ traversed s). stack m' = stack m \<and> backwards_cost m' \<le> backwards_cost m"
      "\<exists>m' \<in> set (expanded s' @ traversed s).
        stack m' = flip c i \<and> backwards_cost m' \<le> backwards_cost cur + 1"
      "\<forall>n \<in> set (expanded s'). good_node key h P n"
      "distinct (map stack (expanded s' @ traversed s))" for s'
    using search_inv_step [OF inv cur that] .
  consider (fresh) "\<not> node_in new (expanded s)" "\<not> node_in new (traversed s)"
    | (opened) "node_in new (expanded s)"
    | (closed) "\<not> node_in new (expanded s)" "node_in new (traversed s)"
    by blast
  then show ?thesis
  proof cases
    case fresh
    let ?s' = "s\<lparr>expanded := expanded s @ [new]\<rparr>"
    have res: "gen_merge key new s = Inr ?s'"
      using fresh by (simp add: gen_merge_def)
    have notin: "stack new \<notin> stack ` set (expanded s)" "stack new \<notin> stack ` set (traversed s)"
      using fresh by (simp_all add: node_in_iff)
    have "search_inv key h P c is ?s'"
    proof (rule step)
      show "\<exists>m' \<in> set (expanded ?s' @ traversed s).
        stack m' = flip c i \<and> backwards_cost m' \<le> backwards_cost cur + 1"
        using st cost by auto
      show "\<forall>n \<in> set (expanded ?s'). good_node key h P n"
        using g1 goodn by auto
      show "distinct (map stack (expanded ?s' @ traversed s))"
        using g2 notin by auto
      show "\<forall>m \<in> set (expanded s @ traversed s).
        \<exists>m' \<in> set (expanded ?s' @ traversed s). stack m' = stack m \<and> backwards_cost m' \<le> backwards_cost m"
        by auto
    qed simp_all
    with res show ?thesis by simp
  next
    case opened
    then have "stack new \<in> stack ` set (expanded s)" by (simp add: node_in_iff)
    from find_stack [OF this] obtain old where
      old: "find (\<lambda>node. stack node = stack new) (expanded s) = Some old"
        "old \<in> set (expanded s)" "stack old = stack new"
      by blast
    have kold: "key old = backwards_cost old + h (stack old)"
      and knew: "key new = backwards_cost new + h (stack new)"
      using g1 old(2) goodn unfolding good_node_def by auto
    show ?thesis
    proof (cases "key new < key old")
      case True
      have "stack old \<in> stack ` set (expanded s)" using old(2) by simp
      from list_remove_split [OF this] obtain a x b where
        ab: "expanded s = a @ x # b" "stack x = stack old" "stack old \<notin> stack ` set a"
          "list_remove old (expanded s) = Inr (a @ b)"
        by blast
      have dex: "distinct (map stack (expanded s))" using g2 by simp
      have "x \<in> set (expanded s)" using ab(1) by simp
      from distinct_stack_eq [OF dex this old(2) ab(2)] have x: "x = old" .
      let ?s' = "s\<lparr>expanded := (a @ b) @ [new]\<rparr>"
      have res: "gen_merge key new s = Inr ?s'"
        using opened old(1) True ab(4) by (simp add: gen_merge_def get_node_by_stack_def)
      have less: "backwards_cost new < backwards_cost old"
        using True kold knew old(3) by simp
      have "search_inv key h P c is ?s'"
      proof (rule step)
        show "\<exists>m' \<in> set (expanded ?s' @ traversed s).
          stack m' = flip c i \<and> backwards_cost m' \<le> backwards_cost cur + 1"
          using st cost by auto
        show "\<forall>n \<in> set (expanded ?s'). good_node key h P n"
          using g1 goodn ab(1) by auto
        show "distinct (map stack (expanded ?s' @ traversed s))"
          using g2 ab(1) ab(2) old(3) by auto
        show "\<forall>m \<in> set (expanded s @ traversed s).
          \<exists>m' \<in> set (expanded ?s' @ traversed s). stack m' = stack m \<and> backwards_cost m' \<le> backwards_cost m"
        proof
          fix m assume m: "m \<in> set (expanded s @ traversed s)"
          show "\<exists>m' \<in> set (expanded ?s' @ traversed s). stack m' = stack m \<and> backwards_cost m' \<le> backwards_cost m"
          proof (cases "m = old")
            case True
            then have "new \<in> set (expanded ?s' @ traversed s) \<and> stack new = stack m
               \<and> backwards_cost new \<le> backwards_cost m"
              using less old(3) by simp
            then show ?thesis by blast
          next
            case False
            then have "m \<in> set (expanded ?s' @ traversed s)"
              using m ab(1) x by auto
            then show ?thesis by blast
          qed
        qed
      qed simp_all
      with res show ?thesis by simp
    next
      case False
      have res: "gen_merge key new s = Inr s"
        using opened old(1) False by (simp add: gen_merge_def get_node_by_stack_def)
      have le: "backwards_cost old \<le> backwards_cost new"
        using False kold knew old(3) by simp
      have "search_inv key h P c is s"
      proof (rule step)
        show "\<exists>m' \<in> set (expanded s @ traversed s).
          stack m' = flip c i \<and> backwards_cost m' \<le> backwards_cost cur + 1"
          using old le st cost by auto
        show "\<forall>n \<in> set (expanded s). good_node key h P n" using g1 by auto
        show "distinct (map stack (expanded s @ traversed s))" by (rule g2)
        show "\<forall>m \<in> set (expanded s @ traversed s).
        \<exists>m' \<in> set (expanded s @ traversed s). stack m' = stack m \<and> backwards_cost m' \<le> backwards_cost m"
          by auto
      qed simp_all
      with res show ?thesis by simp
    qed
  next
    case closed
    have res: "gen_merge key new s = Inr s"
      using closed by (simp add: gen_merge_def)
    from closed(2) obtain t where t: "t \<in> set (traversed s)" "stack t = stack new"
      by (auto simp: node_in_iff)
    have "flip_path P (path new)" "last (path new) = stack new"
      "int (length (path new)) = backwards_cost new + 1"
      using goodn unfolding good_node_def by auto
    with g5 t have le: "backwards_cost t \<le> backwards_cost new" by fastforce
    have "search_inv key h P c is s"
    proof (rule step)
      show "\<exists>m' \<in> set (expanded s @ traversed s).
          stack m' = flip c i \<and> backwards_cost m' \<le> backwards_cost cur + 1"
        using t le st cost by auto
      show "\<forall>n \<in> set (expanded s). good_node key h P n" using g1 by auto
      show "distinct (map stack (expanded s @ traversed s))" by (rule g2)
      show "\<forall>m \<in> set (expanded s @ traversed s).
        \<exists>m' \<in> set (expanded s @ traversed s). stack m' = stack m \<and> backwards_cost m' \<le> backwards_cost m"
        by auto
    qed simp_all
    with res show ?thesis by simp
  qed
qed

lemma gen_expand_inv:
  assumes ok: "mk_ok mk key h"
    and cur: "good_node key h P cur"
  shows "search_inv key h P (stack cur) is s \<Longrightarrow> cur \<in> set (traversed s)
    \<Longrightarrow> \<forall>i \<in> set is. 2 \<le> i \<and> i \<le> int (length P)
    \<Longrightarrow> \<exists>s'. gen_expand mk key cur is s = Inr s' \<and> search_inv key h P (stack cur) [] s'
           \<and> traversed s' = traversed s
           \<and> nodes_expanded s' = nodes_expanded s + int (length is)"
proof (induction "is" arbitrary: s)
  case Nil
  then show ?case by simp
next
  case (Cons i "is")
  let ?new = "mk cur (flip (stack cur) i)"
  let ?s1 = "s\<lparr>nodes_expanded := nodes_expanded s + 1\<rparr>"
  from Cons.prems(3) have i: "2 \<le> i" "i \<le> int (length P)" by auto
  have gn: "good_node key h P ?new" by (rule good_node_mk [OF ok cur i])
  have n: "stack ?new = flip (stack cur) i" "backwards_cost ?new = backwards_cost cur + 1"
    using ok unfolding mk_ok_def by blast+
  have inv1: "search_inv key h P (stack cur) (i # is) ?s1" using Cons.prems(1) by simp
  have cur1: "cur \<in> set (traversed ?s1)" using Cons.prems(2) by simp
  from gen_merge_inv [OF inv1 cur1 refl gn n] obtain s' where
    s': "gen_merge key ?new ?s1 = Inr s'" "search_inv key h P (stack cur) is s'"
      "traversed s' = traversed ?s1" "nodes_expanded s' = nodes_expanded ?s1"
    by blast
  have "cur \<in> set (traversed s')" using s'(3) Cons.prems(2) by simp
  moreover have "\<forall>i \<in> set is. 2 \<le> i \<and> i \<le> int (length P)" using Cons.prems(3) by simp
  ultimately obtain s'' where
    s'': "gen_expand mk key cur is s' = Inr s''" "search_inv key h P (stack cur) [] s''"
      "traversed s'' = traversed s'" "nodes_expanded s'' = nodes_expanded s' + int (length is)"
    using Cons.IH [OF s'(2)] by blast
  have "gen_expand mk key cur (i # is) s = Inr s''"
    using s'(1) s''(1) by (simp add: gen_generate_def)
  with s'' s' show ?case by simp
qed

lemma frontier:
  assumes inv: "search_inv key h P c [] s" and con: "consistent h"
  shows "flip_path P ps \<Longrightarrow>
    (\<exists>t \<in> set (traversed s). stack t = last ps \<and> backwards_cost t \<le> int (length ps) - 1)
    \<or> (\<exists>m \<in> set (expanded s). key m \<le> int (length ps) - 1 + h (last ps))"
proof (induction ps rule: rev_induct)
  case Nil
  then show ?case by (simp add: flip_path_def)
next
  case (snoc x ps)
  have g1: "\<forall>n \<in> set (expanded s @ traversed s). good_node key h P n"
    and g3: "\<exists>m \<in> set (expanded s @ traversed s). stack m = P \<and> backwards_cost m \<le> 0"
    and g4: "\<forall>t \<in> set (traversed s). \<forall>j. 2 \<le> j \<and> j \<le> int (length P) \<longrightarrow>
            (stack t = c \<and> j \<in> set [])
            \<or> (\<exists>m \<in> set (expanded s @ traversed s).
                  stack m = flip (stack t) j \<and> backwards_cost m \<le> backwards_cost t + 1)"
    using inv unfolding search_inv_def by blast+
  have key: "key m = backwards_cost m + h (stack m)" if "m \<in> set (expanded s)" for m
    using g1 that unfolding good_node_def by auto
  have found: ?case
    if m: "m \<in> set (expanded s @ traversed s)" "stack m = x" "backwards_cost m \<le> int (length ps)" for m
  proof (cases "m \<in> set (traversed s)")
    case True
    with m show ?thesis by auto
  next
    case False
    with m have ex: "m \<in> set (expanded s)" by auto
    from key [OF ex] m have "key m \<le> int (length (ps @ [x])) - 1 + h (last (ps @ [x]))" by simp
    with ex show ?thesis by blast
  qed
  show ?case
  proof (cases "ps = []")
    case True
    with snoc.prems have "x = P" by (simp add: flip_path_def)
    with g3 True found show ?thesis by auto
  next
    case False
    from flip_path_snocD [OF snoc.prems False]
    have p: "flip_path P ps" and "flip_step (length P) (last ps) x" by auto
    then obtain i where i: "2 \<le> i" "i \<le> int (length P)" "x = flip (last ps) i"
      by (auto simp: flip_step_iff)
    from snoc.IH [OF p] show ?thesis
    proof
      assume "\<exists>t \<in> set (traversed s). stack t = last ps \<and> backwards_cost t \<le> int (length ps) - 1"
      then obtain t where t: "t \<in> set (traversed s)" "stack t = last ps"
        "backwards_cost t \<le> int (length ps) - 1" by blast
      from g4 t(1) i(1,2) obtain m where "m \<in> set (expanded s @ traversed s)"
        "stack m = flip (stack t) i" "backwards_cost m \<le> backwards_cost t + 1"
        by fastforce
      with t i(3) show ?thesis by (intro found [of m]) auto
    next
      assume "\<exists>m \<in> set (expanded s). key m \<le> int (length ps) - 1 + h (last ps)"
      then obtain m where m: "m \<in> set (expanded s)" "key m \<le> int (length ps) - 1 + h (last ps)"
        by blast
      from con have "h (last ps) \<le> 1 + h (flip (last ps) i)"
        unfolding consistent_def by blast
      with m i(3) have "key m \<le> int (length (ps @ [x])) - 1 + h (last (ps @ [x]))" by simp
      with m(1) show ?thesis by blast
    qed
  qed
qed

lemma gen_extract_inv:
  assumes inv: "search_inv key h P c [] s" and con: "consistent h"
    and reach: "flip_path P gp" "last gp = sort P"
  shows "\<exists>n rest. gen_extract key s = Inr (n, s\<lparr>expanded := rest, traversed := traversed s @ [n]\<rparr>)
      \<and> sort_key key (expanded s) = n # rest
      \<and> good_node key h P n
      \<and> (\<forall>ps. flip_path P ps \<and> last ps = stack n \<longrightarrow> backwards_cost n \<le> int (length ps) - 1)
      \<and> (stack n \<noteq> sort P \<longrightarrow>
           search_inv key h P (stack n) [2 .. int (length P)]
             (s\<lparr>expanded := rest, traversed := traversed s @ [n]\<rparr>))
      \<and> distinct (map stack (rest @ traversed s @ [n]))
      \<and> (\<forall>t \<in> set (traversed s @ [n]). good_node key h P t)"
proof -
  have g0: "goal_stack s = sort P"
    and g1: "\<forall>n \<in> set (expanded s @ traversed s). good_node key h P n"
    and g2: "distinct (map stack (expanded s @ traversed s))"
    and g3: "\<exists>m \<in> set (expanded s @ traversed s). stack m = P \<and> backwards_cost m \<le> 0"
    and g4: "\<forall>t \<in> set (traversed s). \<forall>j. 2 \<le> j \<and> j \<le> int (length P) \<longrightarrow>
            (stack t = c \<and> j \<in> set [])
            \<or> (\<exists>m \<in> set (expanded s @ traversed s).
                  stack m = flip (stack t) j \<and> backwards_cost m \<le> backwards_cost t + 1)"
    and g5: "\<forall>t \<in> set (traversed s). \<forall>ps. flip_path P ps \<and> last ps = stack t
            \<longrightarrow> backwards_cost t \<le> int (length ps) - 1"
    and g6: "\<forall>t \<in> set (traversed s). stack t \<noteq> sort P"
    using inv unfolding search_inv_def by blast+
  from frontier [OF inv con reach(1)] g6 reach(2) have "expanded s \<noteq> []" by auto
  from sort_key_nonempty [OF this] obtain n rest where nr: "sort_key key (expanded s) = n # rest"
    by blast
  from sort_key_hd [OF nr] have ms: "mset (expanded s) = add_mset n (mset rest)"
    and least: "\<forall>m \<in> set (expanded s). key n \<le> key m" by auto
  from ms have sets: "set (expanded s) = insert n (set rest)"
    by (metis list.simps(15) mset.simps(2) set_mset_mset)
  then have nin: "n \<in> set (expanded s)" by simp
  let ?s' = "s\<lparr>expanded := rest, traversed := traversed s @ [n]\<rparr>"
  have res: "gen_extract key s = Inr (n, ?s')"
    by (simp add: gen_extract_def gen_pick_def nr node_eq_def)
  have gn: "good_node key h P n" using g1 nin by auto
  then have kn: "key n = backwards_cost n + h (stack n)" unfolding good_node_def by simp
  have opt: "backwards_cost n \<le> int (length ps) - 1" if ps: "flip_path P ps" "last ps = stack n" for ps
  proof -
    from frontier [OF inv con ps(1)] show ?thesis
    proof
      assume "\<exists>t \<in> set (traversed s). stack t = last ps \<and> backwards_cost t \<le> int (length ps) - 1"
      then obtain t where "t \<in> set (traversed s)" "stack t = stack n" using ps(2) by auto
      with g2 nin show ?thesis by auto
    next
      assume "\<exists>m \<in> set (expanded s). key m \<le> int (length ps) - 1 + h (last ps)"
      then obtain m where "m \<in> set (expanded s)" "key m \<le> int (length ps) - 1 + h (last ps)"
        by blast
      with least kn ps(2) show ?thesis by fastforce
    qed
  qed
  have seteq: "set (expanded ?s' @ traversed ?s') = set (expanded s @ traversed s)"
    using sets by auto
  have "mset (map stack (expanded ?s' @ traversed ?s')) = mset (map stack (expanded s @ traversed s))"
    using ms by simp
  from mset_eq_imp_distinct_iff [OF this] g2
  have d: "distinct (map stack (expanded ?s' @ traversed ?s'))" by simp
  have cl: "\<forall>t \<in> set (traversed s @ [n]). good_node key h P t"
    using g1 gn by auto
  have inv': "search_inv key h P (stack n) [2 .. int (length P)] ?s'" if ng: "stack n \<noteq> sort P"
  proof -
    have c4: "\<forall>t \<in> set (traversed ?s'). \<forall>j. 2 \<le> j \<and> j \<le> int (length P) \<longrightarrow>
            (stack t = stack n \<and> j \<in> set [2 .. int (length P)])
            \<or> (\<exists>m \<in> set (expanded ?s' @ traversed ?s').
                  stack m = flip (stack t) j \<and> backwards_cost m \<le> backwards_cost t + 1)"
    proof (intro ballI allI impI)
      fix t j assume t: "t \<in> set (traversed ?s')" and j: "2 \<le> j \<and> j \<le> int (length P)"
      show "(stack t = stack n \<and> j \<in> set [2 .. int (length P)])
            \<or> (\<exists>m \<in> set (expanded ?s' @ traversed ?s').
                  stack m = flip (stack t) j \<and> backwards_cost m \<le> backwards_cost t + 1)"
      proof (cases "t = n")
        case True
        with j show ?thesis by simp
      next
        case False
        with t have "t \<in> set (traversed s)" by simp
        with g4 j have "\<exists>m \<in> set (expanded s @ traversed s).
                  stack m = flip (stack t) j \<and> backwards_cost m \<le> backwards_cost t + 1"
          by fastforce
        then show ?thesis unfolding seteq by blast
      qed
    qed
    have c5: "\<forall>t \<in> set (traversed ?s'). \<forall>ps. flip_path P ps \<and> last ps = stack t
            \<longrightarrow> backwards_cost t \<le> int (length ps) - 1"
      using g5 opt by auto
    have c6: "\<forall>t \<in> set (traversed ?s'). stack t \<noteq> sort P"
      using g6 ng by auto
    have c1: "\<forall>n \<in> set (expanded ?s' @ traversed ?s'). good_node key h P n"
      unfolding seteq using g1 .
    have c3: "\<exists>m \<in> set (expanded ?s' @ traversed ?s'). stack m = P \<and> backwards_cost m \<le> 0"
      unfolding seteq using g3 .
    show ?thesis
      unfolding search_inv_def
      using g0 c1 d c3 c4 c5 c6 by simp
  qed
  have d': "distinct (map stack (rest @ traversed s @ [n]))" using d by simp
  show ?thesis
    using res nr gn opt inv' d' cl by blast
qed

section \<open>Every stack can be sorted by flips\<close>

lemma flip_step_length: "flip_step N a b \<Longrightarrow> length b = length a"
  by (auto simp: flip_step_iff length_flip)

lemma flip_steps_length: "(flip_step N)\<^sup>*\<^sup>* a b \<Longrightarrow> length b = length a"
  by (induction rule: rtranclp_induct) (auto dest: flip_step_length)

lemma flip_step_append:
  assumes "flip_step n xs ys" "n \<le> length xs" "n \<le> M"
  shows "flip_step M (xs @ zs) (ys @ zs)"
proof -
  from assms(1) obtain i where i: "2 \<le> i" "i \<le> int n" "ys = flip xs i"
    by (auto simp: flip_step_iff)
  then have "nat i \<le> length xs" using assms(2) by simp
  then have "flip (xs @ zs) i = flip xs i @ zs"
    using i(1) by (simp add: flip_prefix)
  with i assms(3) show ?thesis by (auto simp: flip_step_iff)
qed

lemma flip_steps_append:
  assumes "(flip_step n)\<^sup>*\<^sup>* xs ys" "n \<le> length xs" "n \<le> M"
  shows "(flip_step M)\<^sup>*\<^sup>* (xs @ zs) (ys @ zs)"
  using assms(1)
proof (induction rule: rtranclp_induct)
  case base
  then show ?case by simp
next
  case (step y z)
  from flip_steps_length [OF step.hyps(1)] assms(2) have "n \<le> length y" by simp
  from flip_step_append [OF step.hyps(2) this assms(3)]
  have "flip_step M (y @ zs) (z @ zs)" .
  with step.IH show ?case by simp
qed

lemma sortable: "length xs = n \<Longrightarrow> (flip_step n)\<^sup>*\<^sup>* xs (sort xs)"
proof (induction n arbitrary: xs)
  case 0
  then show ?case by simp
next
  case (Suc k)
  then have ne: "xs \<noteq> []" by auto
  define m where "m = Max (set xs)"
  have "m \<in> set xs" unfolding m_def using ne by simp
  then obtain as bs where xs: "xs = as @ m # bs" by (meson split_list)
  have mx: "\<forall>x \<in> set xs. x \<le> m" unfolding m_def by simp
  define zs where "zs = rev bs @ as"
  have lz: "length zs = k" using Suc.prems xs by (simp add: zs_def)
  have srt: "sort xs = sort zs @ [m]"
  proof (rule properties_for_sort)
    show "mset (sort zs @ [m]) = mset xs" by (simp add: xs zs_def)
    have "\<forall>x \<in> set zs. x \<le> m" using mx by (auto simp: xs zs_def)
    then show "sorted (sort zs @ [m])" by (simp add: sorted_append)
  qed
  show ?case
  proof (cases "k = 0")
    case True
    with lz have "zs = []" by simp
    then have "xs = [m]" by (simp add: xs zs_def)
    then show ?thesis by simp
  next
    case False
    then have k: "2 \<le> Suc k" by simp
    let ?top = "m # rev as @ bs"
    have s1: "(flip_step (Suc k))\<^sup>*\<^sup>* xs ?top"
    proof (cases "as = []")
      case True
      then show ?thesis by (simp add: xs)
    next
      case False
      have "flip xs (int (length as) + 1) = ?top"
        by (simp add: flip_prefix xs nat_add_distrib)
      moreover have "2 \<le> int (length as) + 1" using False by (cases as) auto
      moreover have "int (length as) + 1 \<le> int (Suc k)" using Suc.prems xs by simp
      ultimately have "flip_step (Suc k) xs ?top"
        unfolding flip_step_iff by (intro exI [of _ "int (length as) + 1"]) simp
      then show ?thesis by simp
    qed
    have "length ?top = Suc k" using Suc.prems xs by simp
    then have "flip ?top (int (Suc k)) = zs @ [m]"
      by (simp add: flip_prefix zs_def del: of_nat_Suc)
    moreover have "2 \<le> int (Suc k)" using k by simp
    ultimately have "flip_step (Suc k) ?top (zs @ [m])"
      unfolding flip_step_iff by (intro exI [of _ "int (Suc k)"]) simp
    with s1 have s2: "(flip_step (Suc k))\<^sup>*\<^sup>* xs (zs @ [m])" by simp
    from Suc.IH [OF lz] have "(flip_step k)\<^sup>*\<^sup>* zs (sort zs)" .
    from flip_steps_append [OF this, of "Suc k" "[m]"] lz
    have "(flip_step (Suc k))\<^sup>*\<^sup>* (zs @ [m]) (sort zs @ [m])" by simp
    with s2 srt show ?thesis by simp
  qed
qed

lemma flip_steps_path:
  "(flip_step (length P))\<^sup>*\<^sup>* P b \<Longrightarrow> \<exists>ps. flip_path P ps \<and> last ps = b"
proof (induction rule: rtranclp_induct)
  case base
  have "flip_path P [P] \<and> last [P] = P" by (simp add: flip_path_single)
  then show ?case by blast
next
  case (step y z)
  then obtain ps where "flip_path P ps" "last ps = y" by blast
  with step.hyps(2) have "flip_path P (ps @ [z]) \<and> last (ps @ [z]) = z"
    by (simp add: flip_path_snoc)
  then show ?case by blast
qed

lemma goal_reachable: "\<exists>ps. flip_path P ps \<and> last ps = sort P"
  by (rule flip_steps_path) (simp add: sortable)

section \<open>Valid inputs\<close>

lemma is_stack_valid_iff:
  "is_stack_valid P \<longleftrightarrow> distinct P \<and> set P = {1 .. int (length P)}"
proof
  assume v: "is_stack_valid P"
  then have c: "length P = card (set P)"
    and sub: "{1 .. int (length P)} \<subseteq> set P"
    by (auto simp: is_stack_valid_def list_all_iff split: if_splits)
  have "card {1 .. int (length P)} = card (set P)" using c by simp
  with sub have "set P = {1 .. int (length P)}"
    by (metis List.finite_set card_subset_eq)
  moreover have "distinct P" using c by (simp add: card_distinct)
  ultimately show "distinct P \<and> set P = {1 .. int (length P)}" by simp
next
  assume a: "distinct P \<and> set P = {1 .. int (length P)}"
  then have "card (set P) = length P" by (simp add: distinct_card)
  with a show "is_stack_valid P"
    by (auto simp: is_stack_valid_def list_all_iff)
qed

lemma valid_sort: "is_stack_valid P \<Longrightarrow> sort P = [1 .. int (length P)]"
proof (rule properties_for_sort)
  assume "is_stack_valid P"
  then have "distinct P" "set P = set [1 .. int (length P)]"
    by (simp_all add: is_stack_valid_iff)
  then show "mset [1 .. int (length P)] = mset P"
    by (metis distinct_upto set_eq_iff_mset_eq_distinct)
  show "sorted [1 .. int (length P)]" by simp
qed

section \<open>The heuristic is consistent\<close>

lemma heuristic_loop_gaps: "heuristic_loop s i hv = hv + gaps (drop i s)"
proof (induction s i hv rule: heuristic_loop.induct)
  case (1 stk i hv)
  show ?case
  proof (cases "int i < int (length stk) - 1")
    case True
    then have lt: "i < length stk" "Suc i < length stk" by auto
    have d1: "drop (Suc i) stk = stk ! Suc i # drop (Suc (Suc i)) stk"
      using lt by (simp add: Cons_nth_drop_Suc)
    have d: "drop i stk = stk ! i # stk ! Suc i # drop (Suc (Suc i)) stk"
      using lt by (simp add: Cons_nth_drop_Suc)
    show ?thesis
      apply (subst heuristic_loop.simps)
      apply (simp only: True if_True Let_def)
      apply (subst "1.IH" [OF True refl refl refl])
      apply (simp add: d d1)
      done
  next
    case False
    then have "length (drop i stk) \<le> 1" by simp
    then have "gaps (drop i stk) = 0"
      by (cases "drop i stk" rule: gaps.cases) auto
    with False show ?thesis
      by (subst heuristic_loop.simps) simp
  qed
qed

lemma heuristic_gaps: "calculate_heuristic_value s = gaps s"
  by (simp add: calculate_heuristic_value_def heuristic_loop_gaps)

lemma gaps_append:
  "gaps (as @ b # bs) = gaps (as @ [b]) + gaps (b # bs)"
  by (induction as rule: gaps.induct) (auto split: if_splits)

lemma gaps_snoc:
  "gaps (as @ [a, b]) = gaps (as @ [a]) + (if b \<noteq> a + 1 \<and> b \<noteq> a - 1 then 1 else 0)"
  using gaps_append [of "as @ [a]" b "[]"] gaps_append [of as a "[b]"] by simp

lemma gaps_rev: "gaps (rev xs) = gaps xs"
proof (induction xs rule: gaps.induct)
  case (1 x y zs)
  have "gaps (rev (x # y # zs)) = gaps (rev zs @ [y, x])" by simp
  also have "\<dots> = gaps (rev zs @ [y]) + (if x \<noteq> y + 1 \<and> x \<noteq> y - 1 then 1 else 0)"
    by (rule gaps_snoc)
  also have "gaps (rev zs @ [y]) = gaps (y # zs)" using 1 by simp
  finally show ?case by auto
qed simp_all

lemma gaps_bounds:
  "gaps as + gaps bs \<le> gaps (as @ bs)" "gaps (as @ bs) \<le> gaps as + gaps bs + 1"
proof -
  have "gaps as + gaps bs \<le> gaps (as @ bs) \<and> gaps (as @ bs) \<le> gaps as + gaps bs + 1"
  proof (cases bs)
    case Nil
    then show ?thesis by simp
  next
    case (Cons b bs')
    have "gaps (as @ [b]) = gaps as \<or> gaps (as @ [b]) = gaps as + 1"
    proof (cases as rule: rev_cases)
      case Nil
      then show ?thesis by simp
    next
      case (snoc as' a)
      then show ?thesis using gaps_snoc [of as' a b] by auto
    qed
    then show ?thesis
      using gaps_append [of as b bs'] Cons by auto
  qed
  then show "gaps as + gaps bs \<le> gaps (as @ bs)" "gaps (as @ bs) \<le> gaps as + gaps bs + 1"
    by simp_all
qed

lemma gaps_flip: "gaps stk \<le> 1 + gaps (flip stk i)"
proof -
  let ?a = "slice_to stk i" and ?b = "slice_from stk i"
  have "gaps stk = gaps (?a @ ?b)" by (simp add: slice_to_from)
  also have "\<dots> \<le> gaps ?a + gaps ?b + 1" by (rule gaps_bounds)
  also have "\<dots> = gaps (rev ?a) + gaps ?b + 1" by (simp add: gaps_rev)
  also have "\<dots> \<le> gaps (rev ?a @ ?b) + 1" using gaps_bounds(1) [of "rev ?a" ?b] by simp
  finally show ?thesis by (simp add: flip_def)
qed

lemma consistent_heuristic: "consistent calculate_heuristic_value"
  unfolding consistent_def by (simp add: heuristic_gaps gaps_flip)

lemma consistent_zero: "consistent (\<lambda>_. 0)"
  by (simp add: consistent_def)

section \<open>The searches are instances\<close>

lemma ucs_pick_gen: "ucs_get_lowest_cost_node s = gen_pick backwards_cost s"
  by (simp add: ucs_get_lowest_cost_node_def gen_pick_def)

lemma astar_pick_gen: "astar_get_lowest_cost_node s = gen_pick total_cost s"
  by (simp add: astar_get_lowest_cost_node_def gen_pick_def)

lemma ucs_merge_gen: "ucs_merge n s = gen_merge backwards_cost n s"
  by (simp add: ucs_merge_def gen_merge_def)

lemma astar_merge_gen: "astar_merge n s = gen_merge total_cost n s"
  by (simp add: astar_merge_def gen_merge_def)

lemma ucs_generate_gen: "ucs_generate cur i s = gen_generate ucs_mk backwards_cost cur i s"
  by (simp add: ucs_generate_def gen_generate_def ucs_mk_def ucs_merge_gen Let_def)

lemma astar_generate_gen: "astar_generate cur i s = gen_generate astar_mk total_cost cur i s"
  by (simp add: astar_generate_def gen_generate_def astar_mk_def astar_merge_gen Let_def)

lemma ucs_expand_gen: "ucs_expand cur is s = gen_expand ucs_mk backwards_cost cur is s"
  by (induction "is" arbitrary: s) (simp_all add: ucs_generate_gen split: sum.splits)

lemma astar_expand_gen: "astar_expand cur is s = gen_expand astar_mk total_cost cur is s"
  by (induction "is" arbitrary: s) (simp_all add: astar_generate_gen split: sum.splits)

lemma ucs_loop_unfold:
  "ucs_loop s =
     (case gen_extract backwards_cost s of
        Inl e \<Rightarrow> Some (Inl e)
      | Inr (cur, s2) \<Rightarrow>
          if stack cur = goal_stack s2 then Some (Inr (cur, s2))
          else (case gen_expand ucs_mk backwards_cost cur [2 .. int (length (stack cur))] s2 of
                  Inl e \<Rightarrow> Some (Inl e)
                | Inr s3 \<Rightarrow> ucs_loop s3))"
proof (cases "gen_pick backwards_cost s")
  case (Inl e)
  then show ?thesis
    by (subst ucs_loop.simps) (simp add: gen_extract_def ucs_pick_gen)
next
  case (Inr p)
  obtain cur s1 where p: "p = (cur, s1)" by (cases p)
  show ?thesis
  proof (cases "list_remove cur (expanded s1)")
    case (Inl e)
    then show ?thesis
      using Inr p by (subst ucs_loop.simps) (simp add: gen_extract_def ucs_pick_gen)
  next
    case (Inr ex)
    then show ?thesis
      using \<open>gen_pick backwards_cost s = Inr p\<close> p
      by (subst ucs_loop.simps) (simp add: gen_extract_def ucs_pick_gen ucs_expand_gen Let_def)
  qed
qed

lemma astar_loop_unfold:
  "astar_loop s =
     (case gen_extract total_cost s of
        Inl e \<Rightarrow> Some (Inl e)
      | Inr (cur, s2) \<Rightarrow>
          if stack cur = goal_stack s2 then Some (Inr (cur, s2))
          else (case gen_expand astar_mk total_cost cur [2 .. int (length (stack cur))] s2 of
                  Inl e \<Rightarrow> Some (Inl e)
                | Inr s3 \<Rightarrow> astar_loop s3))"
proof (cases "gen_pick total_cost s")
  case (Inl e)
  then show ?thesis
    by (subst astar_loop.simps) (simp add: gen_extract_def astar_pick_gen)
next
  case (Inr p)
  obtain cur s1 where p: "p = (cur, s1)" by (cases p)
  show ?thesis
  proof (cases "list_remove cur (expanded s1)")
    case (Inl e)
    then show ?thesis
      using Inr p by (subst astar_loop.simps) (simp add: gen_extract_def astar_pick_gen)
  next
    case (Inr ex)
    then show ?thesis
      using \<open>gen_pick total_cost s = Inr p\<close> p
      by (subst astar_loop.simps) (simp add: gen_extract_def astar_pick_gen astar_expand_gen Let_def)
  qed
qed

lemma mk_ok_ucs: "mk_ok ucs_mk backwards_cost (\<lambda>_. 0)"
  by (simp add: mk_ok_def ucs_mk_def)

lemma mk_ok_astar: "mk_ok astar_mk total_cost calculate_heuristic_value"
  by (simp add: mk_ok_def astar_mk_def AStarNode_init_def)

section \<open>One iteration of the loop\<close>

lemma good_node_length: "good_node key h P n \<Longrightarrow> length (stack n) = length P"
  unfolding good_node_def using flip_path_mset [of P "path n"] by (metis size_mset)

lemma traversed_bound:
  assumes "search_inv key h P c pending s"
  shows "length (traversed s) \<le> card {xs. set xs \<subseteq> set P \<and> length xs = length P}"
proof -
  let ?U = "{xs. set xs \<subseteq> set P \<and> length xs = length P}"
  have g1: "\<forall>n \<in> set (traversed s). good_node key h P n"
    and g2: "distinct (map stack (traversed s))"
    using assms unfolding search_inv_def by auto
  have "stack t \<in> ?U" if "t \<in> set (traversed s)" for t
  proof -
    from g1 that have "flip_path P (path t)" "last (path t) = stack t"
      unfolding good_node_def by auto
    with flip_path_mset [of P "path t"] have "mset (stack t) = mset P" by simp
    then show ?thesis by (metis (mono_tags, lifting) mem_Collect_eq mset_eq_setD size_mset subset_refl)
  qed
  then have "set (map stack (traversed s)) \<subseteq> ?U" by auto
  moreover have "finite ?U" by (rule finite_lists_length_eq) simp
  ultimately have "card (set (map stack (traversed s))) \<le> card ?U" by (rule card_mono [rotated])
  with distinct_card [OF g2] show ?thesis by simp
qed

lemma gen_iteration:
  assumes inv: "search_inv key h P c [] s" and con: "consistent h" and ok: "mk_ok mk key h"
  shows "\<exists>n s2. gen_extract key s = Inr (n, s2)
      \<and> goal_stack s2 = sort P \<and> length (stack n) = length P
      \<and> good_node key h P n
      \<and> (\<forall>ps. flip_path P ps \<and> last ps = stack n \<longrightarrow> backwards_cost n \<le> int (length ps) - 1)
      \<and> (stack n \<noteq> sort P \<longrightarrow>
           (\<exists>s3. gen_expand mk key n [2 .. int (length P)] s2 = Inr s3
              \<and> search_inv key h P (stack n) [] s3
              \<and> length (traversed s3) = Suc (length (traversed s))))
      \<and> distinct (map stack (traversed s2))
      \<and> (\<forall>t \<in> set (traversed s2). good_node key h P t)"
proof -
  from goal_reachable obtain gp where gp: "flip_path P gp" "last gp = sort P" by blast
  from gen_extract_inv [OF inv con gp] obtain n rest where
    e: "gen_extract key s = Inr (n, s\<lparr>expanded := rest, traversed := traversed s @ [n]\<rparr>)"
      "good_node key h P n"
      "\<forall>ps. flip_path P ps \<and> last ps = stack n \<longrightarrow> backwards_cost n \<le> int (length ps) - 1"
      "stack n \<noteq> sort P \<longrightarrow>
           search_inv key h P (stack n) [2 .. int (length P)]
             (s\<lparr>expanded := rest, traversed := traversed s @ [n]\<rparr>)"
      "distinct (map stack (rest @ traversed s @ [n]))"
      "\<forall>t \<in> set (traversed s @ [n]). good_node key h P t"
    by blast
  let ?s2 = "s\<lparr>expanded := rest, traversed := traversed s @ [n]\<rparr>"
  have g0: "goal_stack ?s2 = sort P" using inv unfolding search_inv_def by simp
  have ex: "\<exists>s3. gen_expand mk key n [2 .. int (length P)] ?s2 = Inr s3
              \<and> search_inv key h P (stack n) [] s3
              \<and> length (traversed s3) = Suc (length (traversed s))" if ng: "stack n \<noteq> sort P"
  proof -
    from e(4) ng have i2: "search_inv key h P (stack n) [2 .. int (length P)] ?s2" by simp
    have "n \<in> set (traversed ?s2)" by simp
    moreover have "\<forall>i \<in> set [2 .. int (length P)]. 2 \<le> i \<and> i \<le> int (length P)" by simp
    ultimately obtain s3 where "gen_expand mk key n [2 .. int (length P)] ?s2 = Inr s3"
      "search_inv key h P (stack n) [] s3" "traversed s3 = traversed ?s2"
      using gen_expand_inv [OF ok e(2) i2] by blast
    then show ?thesis by simp
  qed
  have cl: "distinct (map stack (traversed ?s2))" "\<forall>t \<in> set (traversed ?s2). good_node key h P t"
    using e(5,6) by simp_all
  show ?thesis
    using e(1,2,3) g0 ex good_node_length [OF e(2)] cl by blast
qed

section \<open>The loops return an optimal goal node\<close>

lemma ucs_loop_correct:
  "search_inv backwards_cost (\<lambda>_. 0) P c [] s \<Longrightarrow>
   \<exists>n s'. ucs_loop s = Some (Inr (n, s')) \<and> stack n = sort P
     \<and> good_node backwards_cost (\<lambda>_. 0) P n
     \<and> (\<forall>ps. flip_path P ps \<and> last ps = sort P \<longrightarrow> backwards_cost n \<le> int (length ps) - 1)
     \<and> distinct (map stack (traversed s'))
     \<and> (\<forall>t \<in> set (traversed s'). good_node backwards_cost (\<lambda>_. 0) P t)"
proof (induction "card {xs. set xs \<subseteq> set P \<and> length xs = length P} - length (traversed s)"
    arbitrary: s c rule: less_induct)
  case less
  from gen_iteration [OF less.prems consistent_zero mk_ok_ucs] obtain n s2 where
    it: "gen_extract backwards_cost s = Inr (n, s2)" "goal_stack s2 = sort P"
      "length (stack n) = length P" "good_node backwards_cost (\<lambda>_. 0) P n"
      "\<forall>ps. flip_path P ps \<and> last ps = stack n \<longrightarrow> backwards_cost n \<le> int (length ps) - 1"
      "stack n \<noteq> sort P \<longrightarrow>
           (\<exists>s3. gen_expand ucs_mk backwards_cost n [2 .. int (length P)] s2 = Inr s3
              \<and> search_inv backwards_cost (\<lambda>_. 0) P (stack n) [] s3
              \<and> length (traversed s3) = Suc (length (traversed s)))"
      "distinct (map stack (traversed s2))"
      "\<forall>t \<in> set (traversed s2). good_node backwards_cost (\<lambda>_. 0) P t"
    by blast
  show ?case
  proof (cases "stack n = sort P")
    case True
    then have "ucs_loop s = Some (Inr (n, s2))"
      using it(1,2) by (subst ucs_loop_unfold) simp
    with True it(4,5,7,8) show ?thesis by auto
  next
    case False
    with it(6) obtain s3 where
      s3: "gen_expand ucs_mk backwards_cost n [2 .. int (length P)] s2 = Inr s3"
        "search_inv backwards_cost (\<lambda>_. 0) P (stack n) [] s3"
        "length (traversed s3) = Suc (length (traversed s))"
      by blast
    have eq: "ucs_loop s = ucs_loop s3"
      using it(1,2,3) False s3(1) by (subst ucs_loop_unfold) simp
    from traversed_bound [OF s3(2)] s3(3)
    have "card {xs. set xs \<subseteq> set P \<and> length xs = length P} - length (traversed s3)
        < card {xs. set xs \<subseteq> set P \<and> length xs = length P} - length (traversed s)"
      by simp
    from less.hyps [OF this s3(2)] eq show ?thesis by simp
  qed
qed

lemma astar_loop_correct:
  "search_inv total_cost calculate_heuristic_value P c [] s \<Longrightarrow>
   \<exists>n s'. astar_loop s = Some (Inr (n, s')) \<and> stack n = sort P
     \<and> good_node total_cost calculate_heuristic_value P n
     \<and> (\<forall>ps. flip_path P ps \<and> last ps = sort P \<longrightarrow> backwards_cost n \<le> int (length ps) - 1)
     \<and> distinct (map stack (traversed s'))
     \<and> (\<forall>t \<in> set (traversed s'). good_node total_cost calculate_heuristic_value P t)"
proof (induction "card {xs. set xs \<subseteq> set P \<and> length xs = length P} - length (traversed s)"
    arbitrary: s c rule: less_induct)
  case less
  from gen_iteration [OF less.prems consistent_heuristic mk_ok_astar] obtain n s2 where
    it: "gen_extract total_cost s = Inr (n, s2)" "goal_stack s2 = sort P"
      "length (stack n) = length P" "good_node total_cost calculate_heuristic_value P n"
      "\<forall>ps. flip_path P ps \<and> last ps = stack n \<longrightarrow> backwards_cost n \<le> int (length ps) - 1"
      "stack n \<noteq> sort P \<longrightarrow>
           (\<exists>s3. gen_expand astar_mk total_cost n [2 .. int (length P)] s2 = Inr s3
              \<and> search_inv total_cost calculate_heuristic_value P (stack n) [] s3
              \<and> length (traversed s3) = Suc (length (traversed s)))"
      "distinct (map stack (traversed s2))"
      "\<forall>t \<in> set (traversed s2). good_node total_cost calculate_heuristic_value P t"
    by blast
  show ?case
  proof (cases "stack n = sort P")
    case True
    then have "astar_loop s = Some (Inr (n, s2))"
      using it(1,2) by (subst astar_loop_unfold) simp
    with True it(4,5,7,8) show ?thesis by auto
  next
    case False
    with it(6) obtain s3 where
      s3: "gen_expand astar_mk total_cost n [2 .. int (length P)] s2 = Inr s3"
        "search_inv total_cost calculate_heuristic_value P (stack n) [] s3"
        "length (traversed s3) = Suc (length (traversed s))"
      by blast
    have eq: "astar_loop s = astar_loop s3"
      using it(1,2,3) False s3(1) by (subst astar_loop_unfold) simp
    from traversed_bound [OF s3(2)] s3(3)
    have "card {xs. set xs \<subseteq> set P \<and> length xs = length P} - length (traversed s3)
        < card {xs. set xs \<subseteq> set P \<and> length xs = length P} - length (traversed s)"
      by simp
    from less.hyps [OF this s3(2)] eq show ?thesis by simp
  qed
qed

section \<open>The searches from their initial states\<close>

lemma ucs_initial:
  "search_inv backwards_cost (\<lambda>_. 0) P [] []
     ((Ucs_init P)\<lparr>expanded := expanded (Ucs_init P) @ [root (Ucs_init P)]\<rparr>)"
  by (simp add: search_inv_def Ucs_init_def good_node_def flip_path_single)

lemma astar_initial:
  "search_inv total_cost calculate_heuristic_value P [] []
     (let s0 = (Astar_init P)\<lparr>root := (root (Astar_init P))
                 \<lparr>heuristic_cost := calculate_heuristic_value (stack (root (Astar_init P)))\<rparr>\<rparr>
      in s0\<lparr>expanded := expanded s0 @ [root s0]\<rparr>)"
  by (simp add: search_inv_def Astar_init_def AStarNode_init_def good_node_def flip_path_single Let_def)

lemma ucs_search_correct:
  "\<exists>n s'. ucs_start_search (Ucs_init P) = Some (Inr (n, s')) \<and> stack n = sort P
     \<and> good_node backwards_cost (\<lambda>_. 0) P n
     \<and> (\<forall>ps. flip_path P ps \<and> last ps = sort P \<longrightarrow> backwards_cost n \<le> int (length ps) - 1)
     \<and> distinct (map stack (traversed s'))
     \<and> (\<forall>t \<in> set (traversed s'). good_node backwards_cost (\<lambda>_. 0) P t)"
  unfolding ucs_start_search_def by (rule ucs_loop_correct [OF ucs_initial])

lemma astar_search_correct:
  "\<exists>n s'. astar_start_search (Astar_init P) = Some (Inr (n, s')) \<and> stack n = sort P
     \<and> good_node total_cost calculate_heuristic_value P n
     \<and> (\<forall>ps. flip_path P ps \<and> last ps = sort P \<longrightarrow> backwards_cost n \<le> int (length ps) - 1)
     \<and> distinct (map stack (traversed s'))
     \<and> (\<forall>t \<in> set (traversed s'). good_node total_cost calculate_heuristic_value P t)"
  unfolding astar_start_search_def
  using astar_loop_correct [OF astar_initial [unfolded Let_def]] by (simp add: Let_def)

section \<open>The invariant along a run\<close>

lemma search_inv_nil: "search_inv key h P c [] s \<Longrightarrow> search_inv key h P c' [] s"
  by (simp add: search_inv_def)

lemma search_inv_distinct:
  "search_inv key h P c pending s \<Longrightarrow> distinct (map stack (expanded s @ traversed s))"
  by (simp add: search_inv_def)

lemma search_inv_good:
  "search_inv key h P c pending s \<Longrightarrow> n \<in> set (expanded s @ traversed s) \<Longrightarrow> good_node key h P n"
  unfolding search_inv_def by blast

lemma gen_generate_inv:
  assumes ok: "mk_ok mk key h"
    and inv: "search_inv key h P (stack cur) (i # is) s"
    and cur: "cur \<in> set (traversed s)"
    and i: "2 \<le> i" "i \<le> int (length P)"
  shows "\<exists>s'. gen_generate mk key cur i s = Inr s' \<and> search_inv key h P (stack cur) is s'
           \<and> traversed s' = traversed s \<and> nodes_expanded s' = nodes_expanded s + 1"
proof -
  let ?new = "mk cur (flip (stack cur) i)"
  let ?s1 = "s\<lparr>nodes_expanded := nodes_expanded s + 1\<rparr>"
  have gc: "good_node key h P cur" using search_inv_good [OF inv] cur by simp
  have gn: "good_node key h P ?new" by (rule good_node_mk [OF ok gc i])
  have n: "stack ?new = flip (stack cur) i" "backwards_cost ?new = backwards_cost cur + 1"
    using ok unfolding mk_ok_def by blast+
  have inv1: "search_inv key h P (stack cur) (i # is) ?s1" using inv by simp
  have cur1: "cur \<in> set (traversed ?s1)" using cur by simp
  from gen_merge_inv [OF inv1 cur1 refl gn n] show ?thesis
    by (simp add: gen_generate_def)
qed

lemma gen_extract_unfold:
  "gen_pick key s = Inr (cur, s1) \<Longrightarrow> list_remove cur (expanded s1) = Inr ex
   \<Longrightarrow> gen_extract key s = Inr (cur, s1\<lparr>expanded := ex, traversed := traversed s1 @ [cur]\<rparr>)"
  by (simp add: gen_extract_def)

lemma gen_pick_goal: "gen_pick key s = Inr (cur, s1) \<Longrightarrow> goal_stack s1 = goal_stack s"
  by (auto simp: gen_pick_def Let_def split: list.splits)

lemma run_invariant:
  assumes ok: "mk_ok mk key h" and con: "consistent h"
    and init: "search_inv key h P [] [] s0"
  shows "run (gen_pick key) (gen_generate mk key) s0 cf \<Longrightarrow> run_inv key h P cf"
proof (induction rule: run.induct)
  case start
  then show ?case using init by simp
next
  case (select s cur s1 ex)
  then have inv: "search_inv key h P [] [] s" by simp
  from goal_reachable obtain gp where gp: "flip_path P gp" "last gp = sort P" by blast
  from gen_extract_inv [OF inv con gp] obtain n rest where
    e: "gen_extract key s = Inr (n, s\<lparr>expanded := rest, traversed := traversed s @ [n]\<rparr>)"
      "good_node key h P n"
      "stack n \<noteq> sort P \<longrightarrow>
           search_inv key h P (stack n) [2 .. int (length P)]
             (s\<lparr>expanded := rest, traversed := traversed s @ [n]\<rparr>)"
    by blast
  from gen_extract_unfold [OF select.hyps(2,3)] e(1)
  have "Inr (cur, s1\<lparr>expanded := ex, traversed := traversed s1 @ [cur]\<rparr>)
      = (Inr (n, s\<lparr>expanded := rest, traversed := traversed s @ [n]\<rparr>) :: error + _)"
    by (rule trans [OF sym])
  then have eq: "cur = n" "s1\<lparr>expanded := ex, traversed := traversed s1 @ [cur]\<rparr>
      = s\<lparr>expanded := rest, traversed := traversed s @ [n]\<rparr>"
    by blast+
  have "goal_stack s1 = sort P"
    using gen_pick_goal [OF select.hyps(2)] inv by (simp add: search_inv_def)
  with select.hyps(4) eq(1) have "stack n \<noteq> sort P" by simp
  with e(3) have "search_inv key h P (stack n) [2 .. int (length P)]
             (s\<lparr>expanded := rest, traversed := traversed s @ [n]\<rparr>)" by simp
  moreover have "length (stack n) = length P" by (rule good_node_length [OF e(2)])
  ultimately show ?case
    using eq by (simp add: list_all_iff)
next
  case (finish s cur s1 ex)
  then have inv: "search_inv key h P [] [] s" by simp
  from goal_reachable obtain gp where gp: "flip_path P gp" "last gp = sort P" by blast
  from gen_extract_inv [OF inv con gp] obtain n rest where
    e: "gen_extract key s = Inr (n, s\<lparr>expanded := rest, traversed := traversed s @ [n]\<rparr>)"
      "distinct (map stack (rest @ traversed s @ [n]))"
      "\<forall>t \<in> set (traversed s @ [n]). good_node key h P t"
    by blast
  from gen_extract_unfold [OF finish.hyps(2,3)] e(1)
  have "Inr (cur, s1\<lparr>expanded := ex, traversed := traversed s1 @ [cur]\<rparr>)
      = (Inr (n, s\<lparr>expanded := rest, traversed := traversed s @ [n]\<rparr>) :: error + _)"
    by (rule trans [OF sym])
  then have eq: "cur = n" "s1\<lparr>expanded := ex, traversed := traversed s1 @ [cur]\<rparr>
      = s\<lparr>expanded := rest, traversed := traversed s @ [n]\<rparr>"
    by blast+
  show ?case
    using eq e(2,3) by (simp add: list_all_iff)
next
  case (generate cur i "is" s s')
  then have inv: "search_inv key h P (stack cur) (i # is) s" and cur: "cur \<in> set (traversed s)"
    and i: "2 \<le> i" "i \<le> int (length P)"
    and rest: "list_all (\<lambda>i. 2 \<le> i \<and> i \<le> int (length P)) is"
    by simp_all
  from gen_generate_inv [OF ok inv cur i] generate.hyps(2)
  have "search_inv key h P (stack cur) is s'" "traversed s' = traversed s" by auto
  with cur rest show ?case by simp
next
  case (continue cur s)
  then show ?case by (auto intro: search_inv_nil)
qed

lemma run_inv_distinct:
  "run_inv key h P cf \<Longrightarrow> distinct (map stack (expanded (config_state cf) @ traversed (config_state cf)))"
  by (cases cf) (auto simp: search_inv_def)

lemma ucs_run_inv: "ucs_run P cf \<Longrightarrow> run_inv backwards_cost (\<lambda>_. 0) P cf"
proof -
  have eq: "run ucs_get_lowest_cost_node ucs_generate = run (gen_pick backwards_cost) (gen_generate ucs_mk backwards_cost)"
    by (simp add: ucs_pick_gen [abs_def] ucs_generate_gen [abs_def])
  assume "ucs_run P cf"
  then show ?thesis
    unfolding ucs_run_def eq
    by (rule run_invariant [OF mk_ok_ucs consistent_zero ucs_initial])
qed

lemma astar_run_inv: "astar_run P cf \<Longrightarrow> run_inv total_cost calculate_heuristic_value P cf"
proof -
  have eq: "run astar_get_lowest_cost_node astar_generate = run (gen_pick total_cost) (gen_generate astar_mk total_cost)"
    by (simp add: astar_pick_gen [abs_def] astar_generate_gen [abs_def])
  assume "astar_run P cf"
  then show ?thesis
    unfolding astar_run_def eq
    by (rule run_invariant [OF mk_ok_astar consistent_heuristic astar_initial])
qed

lemma closed_discarded:
  assumes d: "distinct (map stack (expanded s @ traversed s))" and c: "node_in cand (traversed s)"
  shows "gen_merge key cand s = Inr s"
proof -
  from c have "stack cand \<in> stack ` set (traversed s)" by (simp add: node_in_iff)
  with d have "stack cand \<notin> stack ` set (expanded s)" by auto
  then have "\<not> node_in cand (expanded s)" by (simp add: node_in_iff)
  with c show ?thesis by (simp add: gen_merge_def)
qed

section \<open>The runs are the computations of the loops\<close>

lemma ucs_run_result:
  "ucs_run P cf \<Longrightarrow>
     (case cf of
        Head s \<Rightarrow> ucs_loop s
      | Expanding cur pending s \<Rightarrow>
          (case ucs_expand cur pending s of Inl e \<Rightarrow> Some (Inl e) | Inr s3 \<Rightarrow> ucs_loop s3)
      | Returned n s \<Rightarrow> Some (Inr (n, s)))
     = ucs_start_search (Ucs_init P)"
  unfolding ucs_run_def
proof (induction rule: run.induct)
  case start
  then show ?case by (simp add: ucs_start_search_def)
next
  case (select s cur s1 ex)
  from select.IH have "ucs_start_search (Ucs_init P) = ucs_loop s" by simp
  also have "\<dots> = (case ucs_expand cur [2 .. int (length (stack cur))]
        (s1\<lparr>expanded := ex, traversed := traversed s1 @ [cur]\<rparr>) of
           Inl e \<Rightarrow> Some (Inl e) | Inr s3 \<Rightarrow> ucs_loop s3)"
    using select.hyps(2,3,4) by (subst ucs_loop.simps) (simp add: Let_def)
  finally show ?case by simp
next
  case (finish s cur s1 ex)
  from finish.IH have "ucs_start_search (Ucs_init P) = ucs_loop s" by simp
  also have "\<dots> = Some (Inr (cur, s1\<lparr>expanded := ex, traversed := traversed s1 @ [cur]\<rparr>))"
    using finish.hyps(2,3,4) by (subst ucs_loop.simps) (simp add: Let_def)
  finally show ?case by simp
next
  case (generate cur i "is" s s')
  then show ?case by simp
next
  case (continue cur s)
  then show ?case by simp
qed

lemma astar_run_result:
  "astar_run P cf \<Longrightarrow>
     (case cf of
        Head s \<Rightarrow> astar_loop s
      | Expanding cur pending s \<Rightarrow>
          (case astar_expand cur pending s of Inl e \<Rightarrow> Some (Inl e) | Inr s3 \<Rightarrow> astar_loop s3)
      | Returned n s \<Rightarrow> Some (Inr (n, s)))
     = astar_start_search (Astar_init P)"
  unfolding astar_run_def
proof (induction rule: run.induct)
  case start
  then show ?case by (simp add: astar_start_search_def)
next
  case (select s cur s1 ex)
  from select.IH have "astar_start_search (Astar_init P) = astar_loop s" by simp
  also have "\<dots> = (case astar_expand cur [2 .. int (length (stack cur))]
        (s1\<lparr>expanded := ex, traversed := traversed s1 @ [cur]\<rparr>) of
           Inl e \<Rightarrow> Some (Inl e) | Inr s3 \<Rightarrow> astar_loop s3)"
    using select.hyps(2,3,4) by (subst astar_loop.simps) (simp add: Let_def)
  finally show ?case by simp
next
  case (finish s cur s1 ex)
  from finish.IH have "astar_start_search (Astar_init P) = astar_loop s" by simp
  also have "\<dots> = Some (Inr (cur, s1\<lparr>expanded := ex, traversed := traversed s1 @ [cur]\<rparr>))"
    using finish.hyps(2,3,4) by (subst astar_loop.simps) (simp add: Let_def)
  finally show ?case by simp
next
  case (generate cur i "is" s s')
  then show ?case by simp
next
  case (continue cur s)
  then show ?case by simp
qed

section \<open>Bounds and paths of returned nodes\<close>

lemma closed_bound:
  assumes v: "is_stack_valid P"
    and d: "distinct (map stack ts)" and g: "\<forall>t \<in> set ts. good_node key h P t"
  shows "length ts \<le> fact (length P)"
proof -
  let ?U = "{xs. length xs = length P \<and> distinct xs \<and> set xs \<subseteq> set P}"
  from v have dP: "distinct P" by (simp add: is_stack_valid_iff)
  then have cP: "card (set P) = length P" by (rule distinct_card)
  have "stack t \<in> ?U" if "t \<in> set ts" for t
  proof -
    from g that have "flip_path P (path t)" "last (path t) = stack t"
      unfolding good_node_def by auto
    with flip_path_mset [of P "path t"] have m: "mset (stack t) = mset P" by simp
    then have "distinct (stack t)" using dP by (metis mset_eq_imp_distinct_iff)
    moreover have "set (stack t) = set P" using m by (rule mset_eq_setD)
    moreover have "length (stack t) = length P" using m by (metis size_mset)
    ultimately show ?thesis by simp
  qed
  then have sub: "set (map stack ts) \<subseteq> ?U" by auto
  have "card ?U = \<Prod>{card (set P) - length P + 1 .. card (set P)}"
    by (rule card_lists_distinct_length_eq) (simp_all add: cP)
  then have cU: "card ?U = fact (length P)" by (simp add: cP fact_prod)
  have fin: "finite ?U" by (rule finite_subset [OF _ finite_lists_length_eq [of "set P" "length P"]]) auto
  from card_mono [OF fin sub] cU distinct_card [OF d] show ?thesis by simp
qed

lemma good_node_path:
  assumes "good_node key h P n"
  shows "path n \<noteq> [] \<and> hd (path n) = P
    \<and> (\<forall>j. Suc j < length (path n) \<longrightarrow>
          (\<exists>k. 2 \<le> k \<and> k \<le> int (length P) \<and> path n ! Suc j = flip (path n ! j) k))
    \<and> int (length (path n)) - 1 = backwards_cost n"
  using assms unfolding good_node_def flip_path_def successively_conv_nth flip_step_iff by auto

section \<open>The merge of a generated node\<close>

lemma list_remove_first:
  "find (\<lambda>node. stack node = stk) xs = Some old \<Longrightarrow> list_remove old xs = Inr (remove1 old xs)"
proof (induction xs)
  case Nil
  then show ?case by simp
next
  case (Cons x xs)
  show ?case
  proof (cases "stack x = stk")
    case True
    with Cons.prems have "x = old" by simp
    then show ?thesis by (simp add: node_eq_def)
  next
    case False
    with Cons.prems have f: "find (\<lambda>node. stack node = stk) xs = Some old" by simp
    then have "stack old = stk" by (auto simp: find_Some_iff)
    with False have "x \<noteq> old" "\<not> node_eq x old" by (auto simp: node_eq_def)
    with Cons.IH [OF f] show ?thesis by simp
  qed
qed

lemma gen_merge_in_frontier:
  assumes "get_node_by_stack s (stack cand) = Some old"
  shows "gen_merge key cand s =
     Inr (if key cand < key old then s\<lparr>expanded := remove1 old (expanded s) @ [cand]\<rparr> else s)"
proof -
  from assms have f: "find (\<lambda>node. stack node = stack cand) (expanded s) = Some old"
    by (simp add: get_node_by_stack_def)
  then have "old \<in> set (expanded s)" "stack old = stack cand"
    by (auto simp: find_Some_iff)
  then have "node_in cand (expanded s)" unfolding node_in_iff by (metis imageI)
  with assms list_remove_first [OF f] show ?thesis
    by (simp add: gen_merge_def)
qed

section \<open>A run on [1,3,2]\<close>

lemma ucs_run_iteration:
  assumes "ucs_run P (Head s)"
    and "(case ucs_get_lowest_cost_node s of
            Inl e \<Rightarrow> False
          | Inr (cur, s1) \<Rightarrow>
              (case list_remove cur (expanded s1) of
                 Inl e \<Rightarrow> False
               | Inr ex \<Rightarrow> stack cur \<noteq> goal_stack s1
                   \<and> ucs_expand cur [2 .. int (length (stack cur))]
                        (s1\<lparr>expanded := ex, traversed := traversed s1 @ [cur]\<rparr>) = Inr s3))"
  shows "ucs_run P (Head s3)"
proof -
  from assms(2) obtain p where p: "ucs_get_lowest_cost_node s = Inr p"
    by (cases "ucs_get_lowest_cost_node s") auto
  obtain cur s1 where cs: "p = (cur, s1)" by (cases p)
  from assms(2) p cs obtain ex where ex: "list_remove cur (expanded s1) = Inr ex"
    by (cases "list_remove cur (expanded s1)") auto
  from assms(2) p cs ex have
    st: "ucs_get_lowest_cost_node s = Inr (cur, s1)" "list_remove cur (expanded s1) = Inr ex"
      "stack cur \<noteq> goal_stack s1"
      "ucs_expand cur [2 .. int (length (stack cur))]
          (s1\<lparr>expanded := ex, traversed := traversed s1 @ [cur]\<rparr>) = Inr s3"
    by simp_all
  have ex: "run pick gen s0 (Expanding c pending t) \<Longrightarrow> gen = ucs_generate
      \<Longrightarrow> ucs_expand c pending t = Inr t' \<Longrightarrow> run pick gen s0 (Head t')"
    for pick gen s0 c pending t t'
  proof (induction pending arbitrary: t)
    case Nil
    then show ?case by (auto intro: run.continue)
  next
    case (Cons i "is")
    from Cons.prems(3) obtain t1 where t1: "ucs_generate c i t = Inr t1"
      "ucs_expand c is t1 = Inr t'"
      by (auto split: sum.splits)
    from run.generate [OF Cons.prems(1)] t1(1) Cons.prems(2)
    have "run pick gen s0 (Expanding c is t1)" by simp
    from Cons.IH [OF this Cons.prems(2) t1(2)] show ?case .
  qed
  from assms(1) st(1,2,3)
  have "run ucs_get_lowest_cost_node ucs_generate
      ((Ucs_init P)\<lparr>expanded := expanded (Ucs_init P) @ [root (Ucs_init P)]\<rparr>)
      (Expanding cur [2 .. int (length (stack cur))]
          (s1\<lparr>expanded := ex, traversed := traversed s1 @ [cur]\<rparr>))"
    unfolding ucs_run_def by (rule run.select)
  from ex [OF this refl st(4)] show ?thesis by (simp add: ucs_run_def)
qed

lemma ucs_run_select:
  assumes "ucs_run P (Head s)"
    and "(case ucs_get_lowest_cost_node s of
            Inl e \<Rightarrow> False
          | Inr (c, s1) \<Rightarrow>
              (case list_remove c (expanded s1) of
                 Inl e \<Rightarrow> False
               | Inr ex \<Rightarrow> stack c \<noteq> goal_stack s1 \<and> c = cur
                   \<and> [2 .. int (length (stack cur))] = pending
                   \<and> s1\<lparr>expanded := ex, traversed := traversed s1 @ [cur]\<rparr> = s2))"
  shows "ucs_run P (Expanding cur pending s2)"
proof -
  from assms(2) obtain p where p: "ucs_get_lowest_cost_node s = Inr p"
    by (cases "ucs_get_lowest_cost_node s") auto
  obtain c s1 where cs: "p = (c, s1)" by (cases p)
  from assms(2) p cs obtain ex where ex: "list_remove c (expanded s1) = Inr ex"
    by (cases "list_remove c (expanded s1)") auto
  from assms(2) p cs ex have c: "c = cur" by simp
  from assms(2) p cs ex c have
    st: "ucs_get_lowest_cost_node s = Inr (cur, s1)" "list_remove cur (expanded s1) = Inr ex"
      "stack cur \<noteq> goal_stack s1" "[2 .. int (length (stack cur))] = pending"
      "s1\<lparr>expanded := ex, traversed := traversed s1 @ [cur]\<rparr> = s2"
    by simp_all
  from assms(1) st(1,2,3)
  have "run ucs_get_lowest_cost_node ucs_generate
      ((Ucs_init P)\<lparr>expanded := expanded (Ucs_init P) @ [root (Ucs_init P)]\<rparr>)
      (Expanding cur [2 .. int (length (stack cur))]
          (s1\<lparr>expanded := ex, traversed := traversed s1 @ [cur]\<rparr>))"
    unfolding ucs_run_def by (rule run.select)
  with st(4,5) show ?thesis by (simp add: ucs_run_def)
qed

lemma ucs_run_generate:
  "ucs_run P (Expanding cur (i # is) s) \<Longrightarrow> ucs_generate cur i s = Inr s'
   \<Longrightarrow> ucs_run P (Expanding cur is s')"
  unfolding ucs_run_def by (rule run.generate)

lemma ucs_run_start:
  "ucs_run P (Head ((Ucs_init P)\<lparr>expanded := expanded (Ucs_init P) @ [root (Ucs_init P)]\<rparr>))"
  unfolding ucs_run_def by (rule run.start)

lemmas run_eval = ucs_get_lowest_cost_node_def ucs_generate_def
  ucs_merge_def node_in_def node_eq_def get_node_by_stack_def flip_def slice_to_def slice_from_def
  Let_def upto_rec1

lemma ucs_run_132:
  "ucs_run [1, 3, 2]
     (Expanding \<lparr>stack = [3, 2, 1], backwards_cost = 2, path = [[1, 3, 2], [2, 3, 1], [3, 2, 1]]\<rparr>
        [3]
        \<lparr>root = \<lparr>stack = [1, 3, 2], backwards_cost = 0, path = [[1, 3, 2]]\<rparr>,
         expanded =
           [\<lparr>stack = [1, 2, 3], backwards_cost = 3,
               path = [[1, 3, 2], [3, 1, 2], [2, 1, 3], [1, 2, 3]]\<rparr>],
         traversed =
           [\<lparr>stack = [1, 3, 2], backwards_cost = 0, path = [[1, 3, 2]]\<rparr>,
            \<lparr>stack = [3, 1, 2], backwards_cost = 1, path = [[1, 3, 2], [3, 1, 2]]\<rparr>,
            \<lparr>stack = [2, 3, 1], backwards_cost = 1, path = [[1, 3, 2], [2, 3, 1]]\<rparr>,
            \<lparr>stack = [2, 1, 3], backwards_cost = 2, path = [[1, 3, 2], [3, 1, 2], [2, 1, 3]]\<rparr>,
            \<lparr>stack = [3, 2, 1], backwards_cost = 2, path = [[1, 3, 2], [2, 3, 1], [3, 2, 1]]\<rparr>],
         goal_stack = [1, 2, 3], nodes_expanded = 10\<rparr>)"
proof -
  let ?r = "\<lparr>stack = [1, 3, 2], backwards_cost = 0, path = [[1, 3, 2]]\<rparr>"
  let ?a = "\<lparr>stack = [3, 1, 2], backwards_cost = 1, path = [[1, 3, 2], [3, 1, 2]]\<rparr>"
  let ?b = "\<lparr>stack = [2, 3, 1], backwards_cost = 1, path = [[1, 3, 2], [2, 3, 1]]\<rparr>"
  let ?c = "\<lparr>stack = [2, 1, 3], backwards_cost = 2, path = [[1, 3, 2], [3, 1, 2], [2, 1, 3]]\<rparr>"
  let ?d = "\<lparr>stack = [3, 2, 1], backwards_cost = 2, path = [[1, 3, 2], [2, 3, 1], [3, 2, 1]]\<rparr>"
  let ?g = "\<lparr>stack = [1, 2, 3], backwards_cost = 3,
               path = [[1, 3, 2], [3, 1, 2], [2, 1, 3], [1, 2, 3]]\<rparr>"
  have "ucs_run [1, 3, 2] (Head \<lparr>root = ?r, expanded = [?r], traversed = [],
      goal_stack = [1, 2, 3], nodes_expanded = 1\<rparr>)"
    using ucs_run_start [of "[1, 3, 2]"] by (simp add: Ucs_init_def)
  then have "ucs_run [1, 3, 2] (Head \<lparr>root = ?r, expanded = [?a, ?b], traversed = [?r],
      goal_stack = [1, 2, 3], nodes_expanded = 3\<rparr>)"
    by (rule ucs_run_iteration) (simp add: run_eval)
  then have "ucs_run [1, 3, 2] (Head \<lparr>root = ?r, expanded = [?b, ?c], traversed = [?r, ?a],
      goal_stack = [1, 2, 3], nodes_expanded = 5\<rparr>)"
    by (rule ucs_run_iteration) (simp add: run_eval)
  then have "ucs_run [1, 3, 2] (Head \<lparr>root = ?r, expanded = [?c, ?d], traversed = [?r, ?a, ?b],
      goal_stack = [1, 2, 3], nodes_expanded = 7\<rparr>)"
    by (rule ucs_run_iteration) (simp add: run_eval)
  then have "ucs_run [1, 3, 2] (Head \<lparr>root = ?r, expanded = [?d, ?g], traversed = [?r, ?a, ?b, ?c],
      goal_stack = [1, 2, 3], nodes_expanded = 9\<rparr>)"
    by (rule ucs_run_iteration) (simp add: run_eval)
  then have "ucs_run [1, 3, 2] (Expanding ?d [2, 3]
      \<lparr>root = ?r, expanded = [?g], traversed = [?r, ?a, ?b, ?c, ?d],
        goal_stack = [1, 2, 3], nodes_expanded = 9\<rparr>)"
    by (rule ucs_run_select) (simp add: run_eval)
  then show ?thesis
    by (rule ucs_run_generate) (simp add: run_eval)
qed

lemma astar_run_21:
  "astar_run [2, 1]
     (Expanding (AStarNode_init [2, 1] 0 [[2, 1]] 0) [2]
        \<lparr>root = AStarNode_init [2, 1] 0 [[2, 1]] 0, expanded = [],
         traversed = [AStarNode_init [2, 1] 0 [[2, 1]] 0],
         goal_stack = [1, 2], nodes_expanded = 1\<rparr>)"
proof -
  let ?r = "AStarNode_init [2, 1] 0 [[2, 1]] 0"
  let ?s0 = "\<lparr>root = ?r, expanded = [?r], traversed = [], goal_stack = [1, 2], nodes_expanded = 1\<rparr>"
  have h: "calculate_heuristic_value [2, 1] = 0" by (simp add: heuristic_gaps)
  have s0: "(let s0 = (Astar_init [2, 1])\<lparr>root := (root (Astar_init [2, 1]))
                   \<lparr>heuristic_cost := calculate_heuristic_value (stack (root (Astar_init [2, 1])))\<rparr>\<rparr>
        in s0\<lparr>expanded := expanded s0 @ [root s0]\<rparr>) = ?s0"
    by (simp add: Astar_init_def AStarNode_init_def h Let_def)
  have "run astar_get_lowest_cost_node astar_generate ?s0 (Head ?s0)" by (rule run.start)
  moreover have "astar_get_lowest_cost_node ?s0 = Inr (?r, ?s0)"
    by (simp add: astar_get_lowest_cost_node_def)
  moreover have "list_remove ?r (expanded ?s0) = Inr []" by (simp add: node_eq_def)
  moreover have "stack ?r \<noteq> goal_stack ?s0" by (simp add: AStarNode_init_def)
  ultimately have "run astar_get_lowest_cost_node astar_generate ?s0
     (Expanding ?r [2 .. int (length (stack ?r))]
        (?s0\<lparr>expanded := [], traversed := traversed ?s0 @ [?r]\<rparr>))"
    by (rule run.select)
  then show ?thesis
    unfolding astar_run_def s0 by (simp add: AStarNode_init_def upto_rec1)
qed

section \<open>The claims\<close>

text \<open>C1. For every permutation \<open>P\<close> of 1..N (an input that \<open>is_stack_valid\<close> accepts), the
  uniform cost search and the A* search both return a node, and the two nodes have the same
  cost. That cost is the number of flips of the returned path, which leads from \<open>P\<close> to the
  sorted stack, and no path of flips from \<open>P\<close> to the sorted stack has fewer flips.\<close>

theorem searches_return_same_minimal_cost:
  "is_stack_valid P \<Longrightarrow>
   \<exists>n1 s1 n2 s2.
     ucs_start_search (Ucs_init P) = Some (Inr (n1, s1))
     \<and> astar_start_search (Astar_init P) = Some (Inr (n2, s2))
     \<and> backwards_cost n1 = backwards_cost n2
     \<and> flip_path P (path n1) \<and> last (path n1) = sort P
     \<and> backwards_cost n1 = int (length (path n1)) - 1
     \<and> (\<forall>ps. flip_path P ps \<and> last ps = sort P \<longrightarrow> backwards_cost n1 \<le> int (length ps) - 1)"
proof -
  from ucs_search_correct [of P] obtain n1 s1 where
    u: "ucs_start_search (Ucs_init P) = Some (Inr (n1, s1))" "stack n1 = sort P"
      "good_node backwards_cost (\<lambda>_. 0) P n1"
      "\<forall>ps. flip_path P ps \<and> last ps = sort P \<longrightarrow> backwards_cost n1 \<le> int (length ps) - 1"
    by blast
  from astar_search_correct [of P] obtain n2 s2 where
    a: "astar_start_search (Astar_init P) = Some (Inr (n2, s2))" "stack n2 = sort P"
      "good_node total_cost calculate_heuristic_value P n2"
      "\<forall>ps. flip_path P ps \<and> last ps = sort P \<longrightarrow> backwards_cost n2 \<le> int (length ps) - 1"
    by blast
  have pu: "flip_path P (path n1)" "last (path n1) = sort P"
    "int (length (path n1)) = backwards_cost n1 + 1"
    using u(2,3) unfolding good_node_def by auto
  have pa: "flip_path P (path n2)" "last (path n2) = sort P"
    "int (length (path n2)) = backwards_cost n2 + 1"
    using a(2,3) unfolding good_node_def by auto
  have "backwards_cost n1 \<le> backwards_cost n2" using u(4) pa by fastforce
  moreover have "backwards_cost n2 \<le> backwards_cost n1" using a(4) pu by fastforce
  ultimately have "backwards_cost n1 = backwards_cost n2" by simp
  with u(1,4) a(1) pu show ?thesis by auto
qed

theorem searches_return_same_minimal_cost_witness:
  "is_stack_valid [2, 1] \<and>
   (\<exists>n1 s1 n2 s2.
     ucs_start_search (Ucs_init [2, 1]) = Some (Inr (n1, s1))
     \<and> astar_start_search (Astar_init [2, 1]) = Some (Inr (n2, s2))
     \<and> backwards_cost n1 = backwards_cost n2)"
proof -
  have v: "is_stack_valid [2, 1]" by code_simp
  from searches_return_same_minimal_cost [OF v] v show ?thesis by blast
qed

text \<open>C2. For every permutation \<open>P\<close> of 1..N, the node returned by either search has a path
  that starts with \<open>P\<close>, ends with the ascending stack 1..N, moves from each state to the next
  by one flip of the first \<open>k\<close> pancakes for some \<open>k\<close> from 2 to N, and the length of the path
  minus one is the returned cost.\<close>

theorem returned_path_is_valid:
  "is_stack_valid P \<Longrightarrow>
   (\<exists>n s. ucs_start_search (Ucs_init P) = Some (Inr (n, s))
      \<and> path n \<noteq> [] \<and> hd (path n) = P \<and> last (path n) = [1 .. int (length P)]
      \<and> (\<forall>j. Suc j < length (path n) \<longrightarrow>
            (\<exists>k. 2 \<le> k \<and> k \<le> int (length P) \<and> path n ! Suc j = flip (path n ! j) k))
      \<and> int (length (path n)) - 1 = backwards_cost n)
   \<and> (\<exists>n s. astar_start_search (Astar_init P) = Some (Inr (n, s))
      \<and> path n \<noteq> [] \<and> hd (path n) = P \<and> last (path n) = [1 .. int (length P)]
      \<and> (\<forall>j. Suc j < length (path n) \<longrightarrow>
            (\<exists>k. 2 \<le> k \<and> k \<le> int (length P) \<and> path n ! Suc j = flip (path n ! j) k))
      \<and> int (length (path n)) - 1 = backwards_cost n)"
proof -
  assume v: "is_stack_valid P"
  from ucs_search_correct [of P] obtain n1 s1 where
    u: "ucs_start_search (Ucs_init P) = Some (Inr (n1, s1))" "stack n1 = sort P"
      "good_node backwards_cost (\<lambda>_. 0) P n1"
    by blast
  from astar_search_correct [of P] obtain n2 s2 where
    a: "astar_start_search (Astar_init P) = Some (Inr (n2, s2))" "stack n2 = sort P"
      "good_node total_cost calculate_heuristic_value P n2"
    by blast
  have "last (path n1) = [1 .. int (length P)]"
    using u(2,3) valid_sort [OF v] unfolding good_node_def by simp
  moreover have "last (path n2) = [1 .. int (length P)]"
    using a(2,3) valid_sort [OF v] unfolding good_node_def by simp
  ultimately show ?thesis
    using u(1) a(1) good_node_path [OF u(3)] good_node_path [OF a(3)] by blast
qed

theorem returned_path_is_valid_witness:
  "is_stack_valid [2, 1] \<and>
   (\<exists>n s. ucs_start_search (Ucs_init [2, 1]) = Some (Inr (n, s))
      \<and> hd (path n) = [2, 1] \<and> last (path n) = [1 .. int (length [2, 1 :: int])]
      \<and> int (length (path n)) - 1 = backwards_cost n)
   \<and> (\<exists>n s. astar_start_search (Astar_init [2, 1]) = Some (Inr (n, s))
      \<and> hd (path n) = [2, 1] \<and> last (path n) = [1 .. int (length [2, 1 :: int])]
      \<and> int (length (path n)) - 1 = backwards_cost n)"
proof -
  have v: "is_stack_valid [2, 1]" by code_simp
  from returned_path_is_valid [OF v] v show ?thesis by blast
qed

text \<open>C3, as amended. The search performs no validation of its own. On an input that is not a
  permutation of 1..N (a list of integers that \<open>is_stack_valid\<close> rejects) neither search raises
  an error: each runs as on any other list and returns a node whose stack is the sorted
  input.\<close>

theorem no_validation_in_search:
  "\<not> is_stack_valid P \<Longrightarrow>
   (\<exists>n s. ucs_start_search (Ucs_init P) = Some (Inr (n, s)) \<and> stack n = sort P)
   \<and> (\<exists>n s. astar_start_search (Astar_init P) = Some (Inr (n, s)) \<and> stack n = sort P)"
  using ucs_search_correct [of P] astar_search_correct [of P] by blast

theorem no_validation_in_search_witness:
  "\<not> is_stack_valid [5, 2, 2]
   \<and> (\<exists>n s. ucs_start_search (Ucs_init [5, 2, 2]) = Some (Inr (n, s)) \<and> stack n = sort [5, 2, 2])
   \<and> (\<exists>n s. astar_start_search (Astar_init [5, 2, 2]) = Some (Inr (n, s)) \<and> stack n = sort [5, 2, 2])"
proof -
  have v: "\<not> is_stack_valid [5, 2, 2]" by code_simp
  from no_validation_in_search [OF v] v show ?thesis by blast
qed

text \<open>C3 as stated fails: [1,1] has a duplicate value, and the uniform cost search returns
  its root node with cost 0 instead of raising an error.\<close>

theorem invalid_input_counterexample:
  "\<not> is_stack_valid [1, 1]
   \<and> ucs_start_search (Ucs_init [1, 1]) =
       Some (Inr (\<lparr>stack = [1, 1], backwards_cost = 0, path = [[1, 1]]\<rparr>,
         \<lparr>root = \<lparr>stack = [1, 1], backwards_cost = 0, path = [[1, 1]]\<rparr>, expanded = [],
          traversed = [\<lparr>stack = [1, 1], backwards_cost = 0, path = [[1, 1]]\<rparr>],
          goal_stack = [1, 1], nodes_expanded = 1\<rparr>))"
proof -
  have "\<not> is_stack_valid [1, 1]" by code_simp
  moreover have "ucs_start_search (Ucs_init [1, 1]) =
       Some (Inr (\<lparr>stack = [1, 1], backwards_cost = 0, path = [[1, 1]]\<rparr>,
         \<lparr>root = \<lparr>stack = [1, 1], backwards_cost = 0, path = [[1, 1]]\<rparr>, expanded = [],
          traversed = [\<lparr>stack = [1, 1], backwards_cost = 0, path = [[1, 1]]\<rparr>],
          goal_stack = [1, 1], nodes_expanded = 1\<rparr>))"
    apply (simp add: ucs_defs)
    apply (subst ucs_loop.simps)
    apply (simp add: ucs_defs)
    done
  ultimately show ?thesis by simp
qed

text \<open>C4, as amended. When the stack of a generated candidate already has a node in the open
  list, that node is replaced by the candidate only if the candidate's cost is strictly lower
  (its total cost, in the A* search); a candidate of equal or higher cost is discarded and the
  open list stays as it is.\<close>

theorem merge_replaces_only_strictly_cheaper:
  "(get_node_by_stack s (stack cand) = Some old \<longrightarrow>
      ucs_merge cand s =
        Inr (if backwards_cost cand < backwards_cost old
             then s\<lparr>expanded := remove1 old (expanded s) @ [cand]\<rparr> else s))
   \<and> (get_node_by_stack s' (stack cand') = Some old' \<longrightarrow>
      astar_merge cand' s' =
        Inr (if total_cost cand' < total_cost old'
             then s'\<lparr>expanded := remove1 old' (expanded s') @ [cand']\<rparr> else s'))"
  by (simp add: ucs_merge_gen astar_merge_gen gen_merge_in_frontier)

theorem merge_replaces_only_strictly_cheaper_witness:
  "get_node_by_stack
      \<lparr>root = \<lparr>stack = [2, 1], backwards_cost = 0, path = [[2, 1]]\<rparr>,
       expanded = [\<lparr>stack = [1, 2], backwards_cost = 3, path = [[2, 1], [1, 2], [2, 1], [1, 2]]\<rparr>],
       traversed = [], goal_stack = [1, 2], nodes_expanded = 1\<rparr>
      (stack \<lparr>stack = [1, 2], backwards_cost = 1, path = [[2, 1], [1, 2]]\<rparr>)
    = Some \<lparr>stack = [1, 2], backwards_cost = 3, path = [[2, 1], [1, 2], [2, 1], [1, 2]]\<rparr>
   \<and> ucs_merge \<lparr>stack = [1, 2], backwards_cost = 1, path = [[2, 1], [1, 2]]\<rparr>
      \<lparr>root = \<lparr>stack = [2, 1], backwards_cost = 0, path = [[2, 1]]\<rparr>,
       expanded = [\<lparr>stack = [1, 2], backwards_cost = 3, path = [[2, 1], [1, 2], [2, 1], [1, 2]]\<rparr>],
       traversed = [], goal_stack = [1, 2], nodes_expanded = 1\<rparr>
    = Inr \<lparr>root = \<lparr>stack = [2, 1], backwards_cost = 0, path = [[2, 1]]\<rparr>,
       expanded = [\<lparr>stack = [1, 2], backwards_cost = 1, path = [[2, 1], [1, 2]]\<rparr>],
       traversed = [], goal_stack = [1, 2], nodes_expanded = 1\<rparr>
   \<and> get_node_by_stack
      \<lparr>root = AStarNode_init [2, 1] 0 [[2, 1]] 0,
       expanded = [AStarNode_init [1, 2] 1 [[2, 1], [1, 2]] 0],
       traversed = [], goal_stack = [1, 2], nodes_expanded = 1\<rparr>
      (stack (AStarNode_init [1, 2] 1 [[2, 1], [1, 2]] 0))
    = Some (AStarNode_init [1, 2] 1 [[2, 1], [1, 2]] 0)
   \<and> astar_merge (AStarNode_init [1, 2] 1 [[2, 1], [1, 2]] 0)
      \<lparr>root = AStarNode_init [2, 1] 0 [[2, 1]] 0,
       expanded = [AStarNode_init [1, 2] 1 [[2, 1], [1, 2]] 0],
       traversed = [], goal_stack = [1, 2], nodes_expanded = 1\<rparr>
    = Inr \<lparr>root = AStarNode_init [2, 1] 0 [[2, 1]] 0,
       expanded = [AStarNode_init [1, 2] 1 [[2, 1], [1, 2]] 0],
       traversed = [], goal_stack = [1, 2], nodes_expanded = 1\<rparr>"
  using merge_replaces_only_strictly_cheaper
    [of "\<lparr>root = \<lparr>stack = [2, 1], backwards_cost = 0, path = [[2, 1]]\<rparr>,
       expanded = [\<lparr>stack = [1, 2], backwards_cost = 3, path = [[2, 1], [1, 2], [2, 1], [1, 2]]\<rparr>],
       traversed = [], goal_stack = [1, 2], nodes_expanded = 1\<rparr>"
      "\<lparr>stack = [1, 2], backwards_cost = 1, path = [[2, 1], [1, 2]]\<rparr>"
      "\<lparr>stack = [1, 2], backwards_cost = 3, path = [[2, 1], [1, 2], [2, 1], [1, 2]]\<rparr>"
      "\<lparr>root = AStarNode_init [2, 1] 0 [[2, 1]] 0,
       expanded = [AStarNode_init [1, 2] 1 [[2, 1], [1, 2]] 0],
       traversed = [], goal_stack = [1, 2], nodes_expanded = 1\<rparr>"
      "AStarNode_init [1, 2] 1 [[2, 1], [1, 2]] 0"
      "AStarNode_init [1, 2] 1 [[2, 1], [1, 2]] 0"]
  by (simp add: get_node_by_stack_def AStarNode_init_def)

text \<open>C4 as stated fails. In the run of the uniform cost search on [1,3,2], the node [3,2,1]
  of cost 2 is expanded while the open list holds [1,2,3] with cost 3. The flip of all three
  pancakes generates [1,2,3] again, with the same cost 3: the node of the open list has a cost
  greater than or equal to the candidate's, and it is kept, not replaced.\<close>

theorem equal_cost_candidate_counterexample:
  "ucs_run [1, 3, 2]
     (Expanding \<lparr>stack = [3, 2, 1], backwards_cost = 2, path = [[1, 3, 2], [2, 3, 1], [3, 2, 1]]\<rparr>
        [3]
        \<lparr>root = \<lparr>stack = [1, 3, 2], backwards_cost = 0, path = [[1, 3, 2]]\<rparr>,
         expanded =
           [\<lparr>stack = [1, 2, 3], backwards_cost = 3,
               path = [[1, 3, 2], [3, 1, 2], [2, 1, 3], [1, 2, 3]]\<rparr>],
         traversed =
           [\<lparr>stack = [1, 3, 2], backwards_cost = 0, path = [[1, 3, 2]]\<rparr>,
            \<lparr>stack = [3, 1, 2], backwards_cost = 1, path = [[1, 3, 2], [3, 1, 2]]\<rparr>,
            \<lparr>stack = [2, 3, 1], backwards_cost = 1, path = [[1, 3, 2], [2, 3, 1]]\<rparr>,
            \<lparr>stack = [2, 1, 3], backwards_cost = 2, path = [[1, 3, 2], [3, 1, 2], [2, 1, 3]]\<rparr>,
            \<lparr>stack = [3, 2, 1], backwards_cost = 2, path = [[1, 3, 2], [2, 3, 1], [3, 2, 1]]\<rparr>],
         goal_stack = [1, 2, 3], nodes_expanded = 10\<rparr>)
   \<and> ucs_generate \<lparr>stack = [3, 2, 1], backwards_cost = 2, path = [[1, 3, 2], [2, 3, 1], [3, 2, 1]]\<rparr>
        3
        \<lparr>root = \<lparr>stack = [1, 3, 2], backwards_cost = 0, path = [[1, 3, 2]]\<rparr>,
         expanded =
           [\<lparr>stack = [1, 2, 3], backwards_cost = 3,
               path = [[1, 3, 2], [3, 1, 2], [2, 1, 3], [1, 2, 3]]\<rparr>],
         traversed =
           [\<lparr>stack = [1, 3, 2], backwards_cost = 0, path = [[1, 3, 2]]\<rparr>,
            \<lparr>stack = [3, 1, 2], backwards_cost = 1, path = [[1, 3, 2], [3, 1, 2]]\<rparr>,
            \<lparr>stack = [2, 3, 1], backwards_cost = 1, path = [[1, 3, 2], [2, 3, 1]]\<rparr>,
            \<lparr>stack = [2, 1, 3], backwards_cost = 2, path = [[1, 3, 2], [3, 1, 2], [2, 1, 3]]\<rparr>,
            \<lparr>stack = [3, 2, 1], backwards_cost = 2, path = [[1, 3, 2], [2, 3, 1], [3, 2, 1]]\<rparr>],
         goal_stack = [1, 2, 3], nodes_expanded = 10\<rparr>
     = Inr
        \<lparr>root = \<lparr>stack = [1, 3, 2], backwards_cost = 0, path = [[1, 3, 2]]\<rparr>,
         expanded =
           [\<lparr>stack = [1, 2, 3], backwards_cost = 3,
               path = [[1, 3, 2], [3, 1, 2], [2, 1, 3], [1, 2, 3]]\<rparr>],
         traversed =
           [\<lparr>stack = [1, 3, 2], backwards_cost = 0, path = [[1, 3, 2]]\<rparr>,
            \<lparr>stack = [3, 1, 2], backwards_cost = 1, path = [[1, 3, 2], [3, 1, 2]]\<rparr>,
            \<lparr>stack = [2, 3, 1], backwards_cost = 1, path = [[1, 3, 2], [2, 3, 1]]\<rparr>,
            \<lparr>stack = [2, 1, 3], backwards_cost = 2, path = [[1, 3, 2], [3, 1, 2], [2, 1, 3]]\<rparr>,
            \<lparr>stack = [3, 2, 1], backwards_cost = 2, path = [[1, 3, 2], [2, 3, 1], [3, 2, 1]]\<rparr>],
         goal_stack = [1, 2, 3], nodes_expanded = 11\<rparr>"
  using ucs_run_132 by (simp add: run_eval)

text \<open>C5, as amended. \<open>calculate_heuristic_value\<close> counts the indices \<open>i\<close> with
  \<open>0 \<le> i < N - 1\<close>, that is every adjacent pair of the stack, at which \<open>s[i]\<close> and \<open>s[i+1]\<close> do
  not differ by exactly one. It returns 0 on [1,2,3,4], 0 on [4,3,2,1] and 2 on [1,3,2,4].\<close>

theorem heuristic_counts_all_adjacent_pairs:
  "calculate_heuristic_value s = gap_count_upto (length s - 1) s
   \<and> calculate_heuristic_value [1, 2, 3, 4] = 0
   \<and> calculate_heuristic_value [4, 3, 2, 1] = 0
   \<and> calculate_heuristic_value [1, 3, 2, 4] = 2"
proof -
  have gen: "calculate_heuristic_value s = gap_count_upto (length s - 1) s"
    by (simp add: calculate_heuristic_value_def gap_count_upto_def heuristic_loop_count)
  have "calculate_heuristic_value [1, 2, 3, 4] = 0" "calculate_heuristic_value [4, 3, 2, 1] = 0"
     "calculate_heuristic_value [1, 3, 2, 4] = 2"
    by code_simp+
  then show ?thesis using gen by blast
qed

text \<open>C5 as stated fails: on [1,3,2,4] the count over the indices of the half-open interval
  from 0 to \<open>N - 2\<close> is 1, because it leaves out the last pair (2,4), while the code returns 2.\<close>

theorem heuristic_interval_counterexample:
  "calculate_heuristic_value [1, 3, 2, 4] = 2
   \<and> gap_count_upto (length [1, 3, 2, 4 :: int] - 2) [1, 3, 2, 4] = 1"
  by code_simp

text \<open>C6. At every point of every run of either search, no two nodes of the open list and
  the closed list together have the same stack: the open list holds at most one node per
  state, no state is moved to the closed list twice, and no closed state is in the open list.
  A candidate whose stack is in the closed list is discarded by the merge, whatever its
  cost.\<close>

theorem one_node_per_state_and_closed_stays_closed:
  "(ucs_run P cf \<longrightarrow>
      distinct (map stack (expanded (config_state cf) @ traversed (config_state cf)))
      \<and> (\<forall>cand. node_in cand (traversed (config_state cf))
            \<longrightarrow> ucs_merge cand (config_state cf) = Inr (config_state cf)))
   \<and> (astar_run P' cf' \<longrightarrow>
      distinct (map stack (expanded (config_state cf') @ traversed (config_state cf')))
      \<and> (\<forall>cand. node_in cand (traversed (config_state cf'))
            \<longrightarrow> astar_merge cand (config_state cf') = Inr (config_state cf')))"
proof -
  have "distinct (map stack (expanded (config_state cf) @ traversed (config_state cf)))"
    if "ucs_run P cf"
    by (rule run_inv_distinct [OF ucs_run_inv [OF that]])
  moreover have "distinct (map stack (expanded (config_state cf') @ traversed (config_state cf')))"
    if "astar_run P' cf'"
    by (rule run_inv_distinct [OF astar_run_inv [OF that]])
  ultimately show ?thesis
    by (auto simp: ucs_merge_gen astar_merge_gen intro!: closed_discarded)
qed

theorem one_node_per_state_and_closed_stays_closed_witness:
  "ucs_run [1, 3, 2]
     (Expanding \<lparr>stack = [3, 2, 1], backwards_cost = 2, path = [[1, 3, 2], [2, 3, 1], [3, 2, 1]]\<rparr>
        [3]
        \<lparr>root = \<lparr>stack = [1, 3, 2], backwards_cost = 0, path = [[1, 3, 2]]\<rparr>,
         expanded =
           [\<lparr>stack = [1, 2, 3], backwards_cost = 3,
               path = [[1, 3, 2], [3, 1, 2], [2, 1, 3], [1, 2, 3]]\<rparr>],
         traversed =
           [\<lparr>stack = [1, 3, 2], backwards_cost = 0, path = [[1, 3, 2]]\<rparr>,
            \<lparr>stack = [3, 1, 2], backwards_cost = 1, path = [[1, 3, 2], [3, 1, 2]]\<rparr>,
            \<lparr>stack = [2, 3, 1], backwards_cost = 1, path = [[1, 3, 2], [2, 3, 1]]\<rparr>,
            \<lparr>stack = [2, 1, 3], backwards_cost = 2, path = [[1, 3, 2], [3, 1, 2], [2, 1, 3]]\<rparr>,
            \<lparr>stack = [3, 2, 1], backwards_cost = 2, path = [[1, 3, 2], [2, 3, 1], [3, 2, 1]]\<rparr>],
         goal_stack = [1, 2, 3], nodes_expanded = 10\<rparr>)
   \<and> node_in \<lparr>stack = [3, 1, 2], backwards_cost = 0, path = [[3, 1, 2]]\<rparr>
        [\<lparr>stack = [1, 3, 2], backwards_cost = 0, path = [[1, 3, 2]]\<rparr>,
         \<lparr>stack = [3, 1, 2], backwards_cost = 1, path = [[1, 3, 2], [3, 1, 2]]\<rparr>,
         \<lparr>stack = [2, 3, 1], backwards_cost = 1, path = [[1, 3, 2], [2, 3, 1]]\<rparr>,
         \<lparr>stack = [2, 1, 3], backwards_cost = 2, path = [[1, 3, 2], [3, 1, 2], [2, 1, 3]]\<rparr>,
         \<lparr>stack = [3, 2, 1], backwards_cost = 2, path = [[1, 3, 2], [2, 3, 1], [3, 2, 1]]\<rparr>]
   \<and> ucs_merge \<lparr>stack = [3, 1, 2], backwards_cost = 0, path = [[3, 1, 2]]\<rparr>
        \<lparr>root = \<lparr>stack = [1, 3, 2], backwards_cost = 0, path = [[1, 3, 2]]\<rparr>,
         expanded =
           [\<lparr>stack = [1, 2, 3], backwards_cost = 3,
               path = [[1, 3, 2], [3, 1, 2], [2, 1, 3], [1, 2, 3]]\<rparr>],
         traversed =
           [\<lparr>stack = [1, 3, 2], backwards_cost = 0, path = [[1, 3, 2]]\<rparr>,
            \<lparr>stack = [3, 1, 2], backwards_cost = 1, path = [[1, 3, 2], [3, 1, 2]]\<rparr>,
            \<lparr>stack = [2, 3, 1], backwards_cost = 1, path = [[1, 3, 2], [2, 3, 1]]\<rparr>,
            \<lparr>stack = [2, 1, 3], backwards_cost = 2, path = [[1, 3, 2], [3, 1, 2], [2, 1, 3]]\<rparr>,
            \<lparr>stack = [3, 2, 1], backwards_cost = 2, path = [[1, 3, 2], [2, 3, 1], [3, 2, 1]]\<rparr>],
         goal_stack = [1, 2, 3], nodes_expanded = 10\<rparr>
     = Inr
        \<lparr>root = \<lparr>stack = [1, 3, 2], backwards_cost = 0, path = [[1, 3, 2]]\<rparr>,
         expanded =
           [\<lparr>stack = [1, 2, 3], backwards_cost = 3,
               path = [[1, 3, 2], [3, 1, 2], [2, 1, 3], [1, 2, 3]]\<rparr>],
         traversed =
           [\<lparr>stack = [1, 3, 2], backwards_cost = 0, path = [[1, 3, 2]]\<rparr>,
            \<lparr>stack = [3, 1, 2], backwards_cost = 1, path = [[1, 3, 2], [3, 1, 2]]\<rparr>,
            \<lparr>stack = [2, 3, 1], backwards_cost = 1, path = [[1, 3, 2], [2, 3, 1]]\<rparr>,
            \<lparr>stack = [2, 1, 3], backwards_cost = 2, path = [[1, 3, 2], [3, 1, 2], [2, 1, 3]]\<rparr>,
            \<lparr>stack = [3, 2, 1], backwards_cost = 2, path = [[1, 3, 2], [2, 3, 1], [3, 2, 1]]\<rparr>],
         goal_stack = [1, 2, 3], nodes_expanded = 10\<rparr>
   \<and> astar_run [2, 1]
     (Expanding (AStarNode_init [2, 1] 0 [[2, 1]] 0) [2]
        \<lparr>root = AStarNode_init [2, 1] 0 [[2, 1]] 0, expanded = [],
         traversed = [AStarNode_init [2, 1] 0 [[2, 1]] 0],
         goal_stack = [1, 2], nodes_expanded = 1\<rparr>)
   \<and> node_in (AStarNode_init [2, 1] (- 1) [] 0) [AStarNode_init [2, 1] 0 [[2, 1]] 0]
   \<and> astar_merge (AStarNode_init [2, 1] (- 1) [] 0)
        \<lparr>root = AStarNode_init [2, 1] 0 [[2, 1]] 0, expanded = [],
         traversed = [AStarNode_init [2, 1] 0 [[2, 1]] 0],
         goal_stack = [1, 2], nodes_expanded = 1\<rparr>
     = Inr \<lparr>root = AStarNode_init [2, 1] 0 [[2, 1]] 0, expanded = [],
         traversed = [AStarNode_init [2, 1] 0 [[2, 1]] 0],
         goal_stack = [1, 2], nodes_expanded = 1\<rparr>"
proof -
  have n1: "node_in \<lparr>stack = [3, 1, 2], backwards_cost = 0, path = [[3, 1, 2]]\<rparr>
        [\<lparr>stack = [1, 3, 2], backwards_cost = 0, path = [[1, 3, 2]]\<rparr>,
         \<lparr>stack = [3, 1, 2], backwards_cost = 1, path = [[1, 3, 2], [3, 1, 2]]\<rparr>,
         \<lparr>stack = [2, 3, 1], backwards_cost = 1, path = [[1, 3, 2], [2, 3, 1]]\<rparr>,
         \<lparr>stack = [2, 1, 3], backwards_cost = 2, path = [[1, 3, 2], [3, 1, 2], [2, 1, 3]]\<rparr>,
         \<lparr>stack = [3, 2, 1], backwards_cost = 2, path = [[1, 3, 2], [2, 3, 1], [3, 2, 1]]\<rparr>]"
    by (simp add: node_in_def node_eq_def)
  have n2: "node_in (AStarNode_init [2, 1] (- 1) [] 0) [AStarNode_init [2, 1] 0 [[2, 1]] 0]"
    by (simp add: node_in_def node_eq_def AStarNode_init_def)
  from one_node_per_state_and_closed_stays_closed
    [of "[1, 3, 2]" _ "[2, 1]", THEN conjunct1, rule_format, OF ucs_run_132]
    one_node_per_state_and_closed_stays_closed
    [of "[1, 3, 2]" _ "[2, 1]", THEN conjunct2, rule_format, OF astar_run_21]
    n1 n2 ucs_run_132 astar_run_21
  show ?thesis by simp
qed

text \<open>C7. For every permutation \<open>P\<close> of 1..N both searches terminate: \<open>start_search\<close> returns a
  node, whose stack is the sorted stack, and the closed list, which grows by one node in each
  iteration of the loop, has at most N! nodes at that point.\<close>

theorem searches_terminate:
  "is_stack_valid P \<Longrightarrow>
   (\<exists>n s. ucs_start_search (Ucs_init P) = Some (Inr (n, s))
      \<and> stack n = [1 .. int (length P)] \<and> length (traversed s) \<le> fact (length P))
   \<and> (\<exists>n s. astar_start_search (Astar_init P) = Some (Inr (n, s))
      \<and> stack n = [1 .. int (length P)] \<and> length (traversed s) \<le> fact (length P))"
proof -
  assume v: "is_stack_valid P"
  from ucs_search_correct [of P] obtain n1 s1 where
    u: "ucs_start_search (Ucs_init P) = Some (Inr (n1, s1))" "stack n1 = sort P"
      "distinct (map stack (traversed s1))"
      "\<forall>t \<in> set (traversed s1). good_node backwards_cost (\<lambda>_. 0) P t"
    by blast
  from astar_search_correct [of P] obtain n2 s2 where
    a: "astar_start_search (Astar_init P) = Some (Inr (n2, s2))" "stack n2 = sort P"
      "distinct (map stack (traversed s2))"
      "\<forall>t \<in> set (traversed s2). good_node total_cost calculate_heuristic_value P t"
    by blast
  have "length (traversed s1) \<le> fact (length P)" by (rule closed_bound [OF v u(3,4)])
  moreover have "length (traversed s2) \<le> fact (length P)" by (rule closed_bound [OF v a(3,4)])
  ultimately show ?thesis
    using u(1,2) a(1,2) valid_sort [OF v] by auto
qed

theorem searches_terminate_witness:
  "is_stack_valid [3, 1, 2] \<and>
   (\<exists>n s. ucs_start_search (Ucs_init [3, 1, 2]) = Some (Inr (n, s))
      \<and> length (traversed s) \<le> fact (length [3, 1, 2 :: int]))
   \<and> (\<exists>n s. astar_start_search (Astar_init [3, 1, 2]) = Some (Inr (n, s))
      \<and> length (traversed s) \<le> fact (length [3, 1, 2 :: int]))"
proof -
  have v: "is_stack_valid [3, 1, 2]" by code_simp
  from searches_terminate [OF v] v show ?thesis by blast
qed

text \<open>C9. On [1] both searches return cost 0, the path [[1]] and a count of generated nodes
  of 1; on [2,1] both searches return cost 1.\<close>

theorem boundary_inputs:
  "(\<exists>n s. ucs_start_search (Ucs_init [1]) = Some (Inr (n, s))
      \<and> backwards_cost n = 0 \<and> path n = [[1]] \<and> nodes_expanded s = 1)
   \<and> (\<exists>n s. astar_start_search (Astar_init [1]) = Some (Inr (n, s))
      \<and> backwards_cost n = 0 \<and> path n = [[1]] \<and> nodes_expanded s = 1)
   \<and> (\<exists>n s. ucs_start_search (Ucs_init [2, 1]) = Some (Inr (n, s)) \<and> backwards_cost n = 1)
   \<and> (\<exists>n s. astar_start_search (Astar_init [2, 1]) = Some (Inr (n, s)) \<and> backwards_cost n = 1)"
proof -
  have "\<exists>n s. ucs_start_search (Ucs_init [1]) = Some (Inr (n, s))
      \<and> backwards_cost n = 0 \<and> path n = [[1]] \<and> nodes_expanded s = 1"
    by (simp add: ucs_singleton)
  then show ?thesis
    using astar_singleton ucs_two astar_two by blast
qed

text \<open>C10. Flipping the first \<open>k\<close> pancakes twice gives the stack back, for every \<open>k\<close> from 1 to
  the length of the stack, and a flip keeps the multiset of the pancakes.\<close>

theorem flip_involution:
  "1 \<le> k \<Longrightarrow> k \<le> int (length s) \<Longrightarrow> flip (flip s k) k = s \<and> mset (flip s k) = mset s"
proof -
  assume k: "1 \<le> k" "k \<le> int (length s)"
  then have len: "nat k \<le> length s" by simp
  have "flip (flip s k) k = s"
    using k len by (simp add: flip_prefix min_absorb2)
  then show ?thesis by (simp add: mset_flip)
qed

theorem flip_involution_witness:
  "(1::int) \<le> 2 \<and> (2::int) \<le> int (length [3, 1, 2 :: int])
   \<and> flip (flip [3, 1, 2 :: int] 2) 2 = [3, 1, 2] \<and> mset (flip [3, 1, 2 :: int] 2) = mset [3, 1, 2]"
  using flip_involution [of 2 "[3, 1, 2 :: int]"] by simp

end
